theory Spec2Isabelle
  imports
    Main
    "HOL-Library.Char_ord"
    "HOL-Library.List_Lexorder"
    "HOL-Library.Product_Lexorder"
    "HOL-Library.Multiset"
    "HOL-Library.Sublist"
begin

section \<open>Rebate CSV formatter: the column validator and the restructuring engine\<close>

text \<open>
  The development embeds \<^verbatim>\<open>validate_columns\<close> and \<^verbatim>\<open>process_dataframe\<close> of
  \<^verbatim>\<open>app/main.py\<close>. The pandas operations the two functions call are written out as
  list functions with the behaviour pandas documents for them; the date parser
  \<^verbatim>\<open>pd.to_datetime(..., errors="coerce")\<close> is a parameter of the model. Text is a list
  of bytes and is compared byte by byte, which on UTF-8 text is the code-point order
  Python's string comparison uses.
\<close>

subsection \<open>Tables\<close>

text \<open>
  A cell of an object column holds text or is missing (NaN): \<open>None\<close> is the missing
  value. A row maps column names to cells; only the names listed in \<open>columns\<close> are part
  of the table, in that order. Column names are distinct in this model, as they are in
  every frame \<^verbatim>\<open>read_csv\<close> builds.
\<close>

type_synonym cell = "string option"

type_synonym row = "string \<Rightarrow> cell"

record dataframe =
  columns :: "string list"
  rows :: "row list"

datatype error = KeyError "string list"

record metrics =
  input_rows :: nat
  distinct_rebates :: nat
  header_count :: nat
  lumpsum_count :: nat
  output_rows :: nat

definition column :: "string \<Rightarrow> dataframe \<Rightarrow> cell list" where
  "column c df = map (\<lambda>r. r c) (rows df)"

text \<open>The visible content of a table: every row read along the column list.\<close>

definition cells :: "dataframe \<Rightarrow> cell list list" where
  "cells df = map (\<lambda>r. map r (columns df)) (rows df)"

subsection \<open>Module constants\<close>

definition REQUIRED_COLUMNS :: "string list" where
  "REQUIRED_COLUMNS =
     [''Rebate Name'', ''Level'', ''Lumpsum - Fee Type'', ''Lumpsum - Amount'',
      ''Lumpsum - Branch'', ''Lumpsum - Lumpsum Date'', ''Lumpsum - Pay Date'']"

definition DATE_COLUMNS :: "string list" where
  "DATE_COLUMNS = [''Lumpsum - Lumpsum Date'', ''Lumpsum - Pay Date'']"

definition LUMPSUM_COLUMNS :: "string list" where
  "LUMPSUM_COLUMNS =
     [''Lumpsum - Fee Type'', ''Lumpsum - Amount'', ''Lumpsum - Branch'',
      ''Lumpsum - Lumpsum Date'', ''Lumpsum - Pay Date'']"

definition rebate_column :: string where
  "rebate_column = ''Rebate Name''"

definition level_column :: string where
  "level_column = ''Level''"

definition level_sort_column :: string where
  "level_sort_column = ''_level_sort''"

subsection \<open>validate_columns\<close>

definition validate_columns :: "dataframe \<Rightarrow> string list" where
  "validate_columns df = filter (\<lambda>col. col \<notin> set (columns df)) REQUIRED_COLUMNS"

subsection \<open>Timestamps and their rendering\<close>

text \<open>
  Of a parsed timestamp only the calendar date is read by the format \<^verbatim>\<open>%m/%d/%Y\<close>.
  A pandas timestamp has a month in 1..12, a day in 1..31 and a four-digit year, for which
  the fixed widths below are exactly what \<^verbatim>\<open>strftime\<close> prints.
\<close>

record timestamp =
  year :: nat
  month :: nat
  day :: nat

definition digit :: "nat \<Rightarrow> char" where
  "digit d = char_of (48 + d mod 10)"

definition strftime_mdY :: "timestamp \<Rightarrow> string" where
  "strftime_mdY t =
     [digit (month t div 10), digit (month t),
      CHR ''/'',
      digit (day t div 10), digit (day t),
      CHR ''/'',
      digit (year t div 1000), digit (year t div 100), digit (year t div 10), digit (year t)]"

text \<open>
  \<^verbatim>\<open>pd.to_datetime(series, errors="coerce")\<close> receives a whole column and returns a series
  on the same index whose entries are timestamps or NaT. It is library code: the model
  takes it as a parameter, a function from the column to the entry at each row position
  (\<open>None\<close> is NaT).
\<close>

type_synonym to_datetime = "cell list \<Rightarrow> nat \<Rightarrow> timestamp option"

text \<open>\<^verbatim>\<open>parsed.dt.strftime("%m/%d/%Y").fillna("")\<close>, entry by entry.\<close>

definition strftime_fillna :: "timestamp option \<Rightarrow> cell" where
  "strftime_fillna p = (case p of None \<Rightarrow> Some '''' | Some t \<Rightarrow> Some (strftime_mdY t))"

text \<open>The body of the date loop for one column that is present (lines 89 and 90).\<close>

definition normalize_column :: "to_datetime \<Rightarrow> string \<Rightarrow> dataframe \<Rightarrow> dataframe" where
  "normalize_column td col df =
     (let parsed = td (column col df)
      in df\<lparr>rows := map (\<lambda>(i, r). r(col := strftime_fillna (parsed i)))
                        (enumerate 0 (rows df))\<rparr>)"

text \<open>The loop over the date columns (lines 87 to 90); an absent column is skipped.\<close>

fun normalize_dates :: "to_datetime \<Rightarrow> string list \<Rightarrow> dataframe \<Rightarrow> dataframe" where
  "normalize_dates td [] df = df"
| "normalize_dates td (col # cols) df =
     normalize_dates td cols
       (if col \<in> set (columns df) then normalize_column td col df else df)"

subsection \<open>The pandas operations of process_dataframe\<close>

text \<open>\<^verbatim>\<open>df[col] = "text"\<close>: every row gets the value; a new name is appended.\<close>

definition assign_const :: "string \<Rightarrow> string \<Rightarrow> dataframe \<Rightarrow> dataframe" where
  "assign_const col v df =
     \<lparr>columns = (if col \<in> set (columns df) then columns df else columns df @ [col]),
      rows = map (\<lambda>r. r(col \<mapsto> v)) (rows df)\<rparr>"

text \<open>\<^verbatim>\<open>series.nunique(dropna=False)\<close>: the missing value counts as one value.\<close>

definition nunique :: "cell list \<Rightarrow> nat" where
  "nunique ks = length (remdups ks)"

text \<open>
  The group keys of \<^verbatim>\<open>groupby(key, dropna=False)\<close>, whose default is \<^verbatim>\<open>sort=True\<close>: the
  distinct text keys in ascending order, then the missing key if it occurs.
\<close>

definition group_keys :: "cell list \<Rightarrow> cell list" where
  "group_keys ks =
     map Some (sort (remdups (map the (filter (\<lambda>k. k \<noteq> None) ks))))
     @ (if None \<in> set ks then [None] else [])"

text \<open>\<^verbatim>\<open>GroupBy.first()\<close> takes, column by column, the first entry that is not missing.\<close>

fun first_valid :: "cell list \<Rightarrow> cell" where
  "first_valid [] = None"
| "first_valid (None # vs) = first_valid vs"
| "first_valid (Some v # vs) = Some v"

text \<open>
  \<^verbatim>\<open>df.groupby(key, dropna=False, as_index=False).first()\<close>: one row per group key, the key
  column moved to the front.
\<close>

definition first_row :: "string \<Rightarrow> row list \<Rightarrow> cell \<Rightarrow> row" where
  "first_row key rs k =
     (\<lambda>c. if c = key then k
          else first_valid (map (\<lambda>r. r c) (filter (\<lambda>r. r key = k) rs)))"

definition groupby_first :: "string \<Rightarrow> dataframe \<Rightarrow> error + dataframe" where
  "groupby_first key df =
     (if key \<notin> set (columns df) then Inl (KeyError [key])
      else Inr
        \<lparr>columns = key # removeAll key (columns df),
         rows = map (first_row key (rows df)) (group_keys (column key df))\<rparr>)"

text \<open>The loop that blanks the detail columns of the header rows (lines 98 to 100).\<close>

fun blank_columns :: "string list \<Rightarrow> dataframe \<Rightarrow> dataframe" where
  "blank_columns [] h = h"
| "blank_columns (col # cols) h =
     blank_columns cols (if col \<in> set (columns h) then assign_const col '''' h else h)"

text \<open>
  \<^verbatim>\<open>pd.concat([a, b], ignore_index=True)\<close>: the columns of \<open>a\<close>, then the new ones of
  \<open>b\<close>; a row is missing in every column its own frame does not have.
\<close>

definition reindex :: "string list \<Rightarrow> row \<Rightarrow> row" where
  "reindex cs r = (\<lambda>c. if c \<in> set cs then r c else None)"

definition concat_frames :: "dataframe \<Rightarrow> dataframe \<Rightarrow> dataframe" where
  "concat_frames a b =
     \<lparr>columns = columns a @ filter (\<lambda>c. c \<notin> set (columns a)) (columns b),
      rows = map (reindex (columns a)) (rows a) @ map (reindex (columns b)) (rows b)\<rparr>"

text \<open>\<^verbatim>\<open>.map({"Header": 0, "Lumpsum": 1}).fillna(2)\<close> on the tier cell of a row.\<close>

definition level_sort :: "row \<Rightarrow> nat" where
  "level_sort r =
     (case r level_column of
        None \<Rightarrow> 2
      | Some v \<Rightarrow> if v = ''Header'' then 0 else if v = ''Lumpsum'' then 1 else 2)"

definition fillna_empty :: "cell \<Rightarrow> cell" where
  "fillna_empty v = (case v of None \<Rightarrow> Some '''' | Some s \<Rightarrow> Some s)"

definition key_text :: "cell \<Rightarrow> string" where
  "key_text v = (case v of None \<Rightarrow> '''' | Some s \<Rightarrow> s)"

text \<open>
  Lines 106 to 109. The scratch column holds numbers, not text, so it travels beside each
  row instead of inside it; its name is added to and dropped from the column list as the
  assignment and \<^verbatim>\<open>drop\<close> do. The sort compares text by code point and is stable.
\<close>

definition fill_rebate :: "row \<Rightarrow> row" where
  "fill_rebate r = r(rebate_column := fillna_empty (r rebate_column))"

definition sort_by_rebate_and_level :: "dataframe \<Rightarrow> dataframe" where
  "sort_by_rebate_and_level f =
     (let with_sort = map (\<lambda>r. (r, level_sort r)) (rows f);
          with_cols = (if level_sort_column \<in> set (columns f) then columns f
                       else columns f @ [level_sort_column]);
          filled = map (\<lambda>(r, k). (fill_rebate r, k)) with_sort;
          sorted_rows = sort_key (\<lambda>(r, k). (key_text (r rebate_column), k)) filled
      in \<lparr>columns = removeAll level_sort_column with_cols, rows = map fst sorted_rows\<rparr>)"

text \<open>\<^verbatim>\<open>frame[names]\<close>: the named columns in the given order; an unknown name raises.\<close>

definition select_columns :: "string list \<Rightarrow> dataframe \<Rightarrow> error + dataframe" where
  "select_columns cs f =
     (let missing = filter (\<lambda>c. c \<notin> set (columns f)) cs
      in if missing = [] then Inr \<lparr>columns = cs, rows = rows f\<rparr> else Inl (KeyError missing))"

subsection \<open>process_dataframe\<close>

text \<open>The header rows as built by lines 95 to 100.\<close>

definition make_header_rows :: "dataframe \<Rightarrow> error + dataframe" where
  "make_header_rows df =
     (case groupby_first rebate_column df of
        Inl e \<Rightarrow> Inl e
      | Inr g \<Rightarrow> Inr (blank_columns LUMPSUM_COLUMNS (assign_const level_column ''Header'' g)))"

text \<open>
  The function mutates the frame it is given. The first component of the result is the
  caller's frame as the call leaves it, the second what the call returns or raises.
\<close>

definition process_dataframe ::
    "to_datetime \<Rightarrow> dataframe \<Rightarrow> dataframe \<times> (error + dataframe \<times> metrics)" where
  "process_dataframe td df0 =
     (let original_columns = columns df0;
          df1 = normalize_dates td DATE_COLUMNS df0
      in if rebate_column \<notin> set (columns df1) then (df1, Inl (KeyError [rebate_column]))
         else
           let source_rows = length (rows df1);
               distinct = nunique (column rebate_column df1)
           in case make_header_rows df1 of
                Inl e \<Rightarrow> (df1, Inl e)
              | Inr header_rows \<Rightarrow>
                  let df2 = assign_const level_column ''Lumpsum'' df1;
                      final_df = sort_by_rebate_and_level (concat_frames header_rows df2)
                  in (df2,
                      case select_columns original_columns final_df of
                        Inl e \<Rightarrow> Inl e
                      | Inr out \<Rightarrow>
                          Inr (out,
                               \<lparr>input_rows = source_rows,
                                distinct_rebates = distinct,
                                header_count = length (rows header_rows),
                                lumpsum_count = source_rows,
                                output_rows = length (rows out)\<rparr>)))"

subsection \<open>A concrete parser for worked examples\<close>

text \<open>
  The examples need some parser. This stand-in for \<^verbatim>\<open>pd.to_datetime\<close> reads three of the
  representations the library reads: month first (\<^verbatim>\<open>1/2/2024\<close>, \<^verbatim>\<open>01/02/2024\<close>), day
  first where the text is no month-first date (\<^verbatim>\<open>13/01/2024\<close>), and ISO (\<^verbatim>\<open>2024-01-02\<close>);
  and only real calendar dates of the years a nanosecond timestamp can hold. As pandas 2
  does, it takes the format of a column from the first cell that is neither missing nor
  empty and reads every cell in that format, so that a date written in another format is
  NaT; when that first cell has none of the formats, every cell is read on its own. The
  missing value and the empty text are NaT.
\<close>

definition digit_value :: "char \<Rightarrow> nat option" where
  "digit_value c =
     (let n = (of_char c :: nat) in if 48 \<le> n \<and> n \<le> 57 then Some (n - 48) else None)"

fun digits_value :: "string \<Rightarrow> nat option" where
  "digits_value [] = Some 0"
| "digits_value (c # cs) =
     (case digit_value c of
        None \<Rightarrow> None
      | Some d \<Rightarrow> (case digits_value cs of
                     None \<Rightarrow> None
                   | Some n \<Rightarrow> Some (d * 10 ^ length cs + n)))"

fun split_on :: "char \<Rightarrow> string \<Rightarrow> string list" where
  "split_on sep [] = [[]]"
| "split_on sep (c # cs) =
     (if c = sep then [] # split_on sep cs
      else (case split_on sep cs of [] \<Rightarrow> [[c]] | f # fs \<Rightarrow> (c # f) # fs))"

definition leap_year :: "nat \<Rightarrow> bool" where
  "leap_year y \<longleftrightarrow> (y mod 4 = 0 \<and> y mod 100 \<noteq> 0) \<or> y mod 400 = 0"

definition days_in_month :: "nat \<Rightarrow> nat \<Rightarrow> nat" where
  "days_in_month y m =
     (if m = 2 then (if leap_year y then 29 else 28)
      else if m = 4 \<or> m = 6 \<or> m = 9 \<or> m = 11 then 30 else 31)"

definition valid_date :: "timestamp \<Rightarrow> bool" where
  "valid_date t \<longleftrightarrow>
     1678 \<le> year t \<and> year t \<le> 2261 \<and> 1 \<le> month t \<and> month t \<le> 12
     \<and> 1 \<le> day t \<and> day t \<le> days_in_month (year t) (month t)"

text \<open>The three fields of a date, read as decimal numbers.\<close>

definition read_date :: "string \<Rightarrow> string \<Rightarrow> string \<Rightarrow> timestamp option" where
  "read_date y m d =
     (case digits_value y of
        None \<Rightarrow> None
      | Some yv \<Rightarrow>
          (case digits_value m of
             None \<Rightarrow> None
           | Some mv \<Rightarrow>
               (case digits_value d of
                  None \<Rightarrow> None
                | Some dv \<Rightarrow>
                    (let t = \<lparr>year = yv, month = mv, day = dv\<rparr>
                     in if valid_date t then Some t else None))))"

definition parse_mdY :: "string \<Rightarrow> timestamp option" where
  "parse_mdY s =
     (case split_on CHR ''/'' s of
        [m, d, y] \<Rightarrow>
          if (length m = 1 \<or> length m = 2) \<and> (length d = 1 \<or> length d = 2) \<and> length y = 4
          then read_date y m d else None
      | _ \<Rightarrow> None)"

definition parse_dmY :: "string \<Rightarrow> timestamp option" where
  "parse_dmY s =
     (case split_on CHR ''/'' s of
        [d, m, y] \<Rightarrow>
          if (length m = 1 \<or> length m = 2) \<and> (length d = 1 \<or> length d = 2) \<and> length y = 4
          then read_date y m d else None
      | _ \<Rightarrow> None)"

definition parse_iso :: "string \<Rightarrow> timestamp option" where
  "parse_iso s =
     (case split_on CHR ''-'' s of
        [y, m, d] \<Rightarrow>
          if length y = 4 \<and> (length m = 1 \<or> length m = 2) \<and> (length d = 1 \<or> length d = 2)
          then read_date y m d else None
      | _ \<Rightarrow> None)"

datatype date_format = Iso | MonthFirst | DayFirst

definition guess_format :: "string \<Rightarrow> date_format option" where
  "guess_format s =
     (case parse_iso s of
        Some t \<Rightarrow> Some Iso
      | None \<Rightarrow>
          (case parse_mdY s of
             Some t \<Rightarrow> Some MonthFirst
           | None \<Rightarrow> (case parse_dmY s of Some t \<Rightarrow> Some DayFirst | None \<Rightarrow> None)))"

text \<open>The first cell that is neither missing nor empty.\<close>

fun first_text :: "cell list \<Rightarrow> string option" where
  "first_text [] = None"
| "first_text (None # xs) = first_text xs"
| "first_text (Some s # xs) = (if s = [] then first_text xs else Some s)"

definition column_format :: "cell list \<Rightarrow> date_format option" where
  "column_format xs = (case first_text xs of None \<Rightarrow> None | Some s \<Rightarrow> guess_format s)"

definition parse_with :: "date_format option \<Rightarrow> string \<Rightarrow> timestamp option" where
  "parse_with f s =
     (case f of
        Some Iso \<Rightarrow> parse_iso s
      | Some MonthFirst \<Rightarrow> parse_mdY s
      | Some DayFirst \<Rightarrow> parse_dmY s
      | None \<Rightarrow>
          (case parse_iso s of
             Some t \<Rightarrow> Some t
           | None \<Rightarrow> (case parse_mdY s of Some t \<Rightarrow> Some t | None \<Rightarrow> parse_dmY s)))"

definition mdY_parser :: to_datetime where
  "mdY_parser xs i =
     (if i < length xs
      then (case xs ! i of None \<Rightarrow> None | Some s \<Rightarrow> parse_with (column_format xs) s)
      else None)"

text \<open>Building example rows from the listed cells; unlisted cells are missing.\<close>

definition mk_row :: "(string \<times> string) list \<Rightarrow> row" where
  "mk_row kvs = map_of kvs"

subsection \<open>Reading a result\<close>

definition output_table ::
    "dataframe \<times> (error + dataframe \<times> metrics) \<Rightarrow> dataframe option" where
  "output_table res = (case snd res of Inl e \<Rightarrow> None | Inr (out, m) \<Rightarrow> Some out)"

definition output_metrics ::
    "dataframe \<times> (error + dataframe \<times> metrics) \<Rightarrow> metrics option" where
  "output_metrics res = (case snd res of Inl e \<Rightarrow> None | Inr (out, m) \<Rightarrow> Some m)"

definition raised :: "dataframe \<times> (error + dataframe \<times> metrics) \<Rightarrow> error option" where
  "raised res = (case snd res of Inl e \<Rightarrow> Some e | Inr p \<Rightarrow> None)"

text \<open>The grouping key and the tier of every row, and the keys of the Header rows.\<close>

definition row_tags :: "dataframe \<Rightarrow> (cell \<times> cell) list" where
  "row_tags df = map (\<lambda>r. (r rebate_column, r level_column)) (rows df)"

definition header_keys :: "dataframe \<Rightarrow> cell list" where
  "header_keys df =
     map (\<lambda>r. r rebate_column) (filter (\<lambda>r. r level_column = Some ''Header'') (rows df))"

subsection \<open>Closed forms used in the proofs\<close>

text \<open>A row with the listed columns blanked.\<close>

definition blank_row :: "string list \<Rightarrow> row \<Rightarrow> row" where
  "blank_row cs r = (\<lambda>c. if c \<in> set cs then Some '''' else r c)"

text \<open>The pair the stable sort compares: key text, then tier rank.\<close>

definition sort_pair :: "row \<Rightarrow> string \<times> nat" where
  "sort_pair r = (key_text (r rebate_column), level_sort r)"

text \<open>The header row of the group with key \<open>k\<close>, as lines 95 to 100 leave it.\<close>

definition header_row :: "string list \<Rightarrow> row list \<Rightarrow> cell \<Rightarrow> row" where
  "header_row cs rs k =
     blank_row (filter (\<lambda>c. c = level_column \<or> c \<in> set cs) LUMPSUM_COLUMNS)
       ((first_row rebate_column rs k)(level_column \<mapsto> ''Header''))"

text \<open>The two blocks of rows that line 105 concatenates.\<close>

definition header_part :: "to_datetime \<Rightarrow> dataframe \<Rightarrow> row list" where
  "header_part td df =
     (let df1 = normalize_dates td DATE_COLUMNS df
      in map (\<lambda>k. reindex (level_column # columns df) (header_row (columns df) (rows df1) k))
           (group_keys (column rebate_column df)))"

definition lumpsum_part :: "to_datetime \<Rightarrow> dataframe \<Rightarrow> row list" where
  "lumpsum_part td df =
     map (\<lambda>r. reindex (level_column # columns df) (r(level_column \<mapsto> ''Lumpsum'')))
       (rows (normalize_dates td DATE_COLUMNS df))"

subsection \<open>Example tables\<close>

definition ex_header :: "string list" where
  "ex_header = [''Rebate Name'', ''Level'', ''Lumpsum - Fee Type'', ''Lumpsum - Amount'',
      ''Lumpsum - Branch'', ''Lumpsum - Lumpsum Date'', ''Lumpsum - Pay Date'']"

definition ex_detail :: "string \<Rightarrow> string \<Rightarrow> row" where
  "ex_detail k amount =
     mk_row [(''Rebate Name'', k), (''Level'', ''''), (''Lumpsum - Fee Type'', ''Flat''),
             (''Lumpsum - Amount'', amount), (''Lumpsum - Branch'', ''NY''),
             (''Lumpsum - Lumpsum Date'', ''01/15/2024''), (''Lumpsum - Pay Date'', '''')]"

text \<open>Four rows whose keys come in the order B, A, B, C.\<close>

definition ex_babc :: dataframe where
  "ex_babc = \<lparr>columns = ex_header,
              rows = [ex_detail ''B'' ''1'', ex_detail ''A'' ''2'', ex_detail ''B'' ''3'',
                      ex_detail ''C'' ''4'']\<rparr>"

subsection \<open>Date text\<close>





subsection \<open>More example tables\<close>

text \<open>
  Every cell of the table is text. This is what the ingestion delivers (line 152 reads with
  \<^verbatim>\<open>dtype=str, keep_default_na=False\<close>) and what the data model of the spec says of a
  table.
\<close>

definition all_text :: "dataframe \<Rightarrow> bool" where
  "all_text df \<longleftrightarrow> (\<forall>r\<in>set (rows df). \<forall>c\<in>set (columns df). r c \<noteq> None)"

text \<open>An extra column beside the required ones.\<close>

definition ex_note :: dataframe where
  "ex_note =
     \<lparr>columns = ex_header @ [''Note''],
      rows = [(ex_detail ''X'' ''1'')(''Note'' \<mapsto> ''first''),
              (ex_detail ''X'' ''2'')(''Note'' \<mapsto> ''second'')]\<rparr>"

text \<open>Two rows whose key is the empty text, after a row with another key.\<close>

definition ex_empty_key :: dataframe where
  "ex_empty_key =
     \<lparr>columns = ex_header,
      rows = [ex_detail ''B'' ''1'', ex_detail '''' ''2'', ex_detail '''' ''3'']\<rparr>"




text \<open>Valid tables that also have a column named like the scratch column of line 106.\<close>

definition ex_scratch_between :: dataframe where
  "ex_scratch_between =
     \<lparr>columns = [''Rebate Name'', ''_level_sort'', ''Level'', ''Lumpsum - Fee Type'',
                 ''Lumpsum - Amount'', ''Lumpsum - Branch'', ''Lumpsum - Lumpsum Date'',
                 ''Lumpsum - Pay Date''],
      rows = [(ex_detail ''X'' ''1'')(''_level_sort'' \<mapsto> ''7'')]\<rparr>"

definition ex_scratch_last :: dataframe where
  "ex_scratch_last =
     \<lparr>columns = ex_header @ [''_level_sort''],
      rows = [(ex_detail ''Y'' ''1'')(''_level_sort'' \<mapsto> ''a''),
              (ex_detail ''X'' ''2'')(''_level_sort'' \<mapsto> ''b'')]\<rparr>"

definition ex_scratch_first :: dataframe where
  "ex_scratch_first =
     \<lparr>columns = ''_level_sort'' # ex_header,
      rows = [(ex_detail ''X'' ''1'')(''_level_sort'' \<mapsto> '''')]\<rparr>"

section \<open>Supporting lemmas\<close>

subsection \<open>Sorting a mapped list\<close>

lemma insort_key_map_commute:
  "insort_key f (g x) (map g ys) = map g (insort_key (\<lambda>y. f (g y)) x ys)"
  by (induction ys) simp_all

lemma sort_key_map_commute:
  "sort_key f (map g xs) = map g (sort_key (\<lambda>y. f (g y)) xs)"
  by (induction xs) (simp_all add: insort_key_map_commute)

subsection \<open>The date loop\<close>

lemma columns_normalize_column [simp]:
  "columns (normalize_column td c df) = columns df"
  by (simp add: normalize_column_def Let_def)

lemma length_rows_normalize_column [simp]:
  "length (rows (normalize_column td c df)) = length (rows df)"
  by (simp add: normalize_column_def Let_def)

lemma nth_enumerate_map:
  "i < length xs \<Longrightarrow> map (\<lambda>(j, r). f j r) (enumerate n xs) ! i = f (n + i) (xs ! i)"
  by (simp add: nth_enumerate_eq)

lemma nth_rows_normalize_column:
  "i < length (rows df) \<Longrightarrow>
   rows (normalize_column td c df) ! i = (rows df ! i)(c := strftime_fillna (td (column c df) i))"
  by (simp add: normalize_column_def Let_def nth_enumerate_eq)

lemma column_normalize_column_other:
  "c' \<noteq> c \<Longrightarrow> column c' (normalize_column td c df) = column c' df"
  by (rule nth_equalityI) (simp_all add: column_def nth_rows_normalize_column)

lemma columns_normalize_dates [simp]:
  "columns (normalize_dates td cs df) = columns df"
  by (induction cs arbitrary: df) simp_all

lemma length_rows_normalize_dates [simp]:
  "length (rows (normalize_dates td cs df)) = length (rows df)"
  by (induction cs arbitrary: df) simp_all

lemma column_normalize_dates_other:
  "c' \<notin> set cs \<Longrightarrow> column c' (normalize_dates td cs df) = column c' df"
  by (induction cs arbitrary: df) (auto simp: column_normalize_column_other)

lemma nth_rows_normalize_dates_other:
  "c' \<notin> set cs \<Longrightarrow> i < length (rows df) \<Longrightarrow>
   (rows (normalize_dates td cs df) ! i) c' = (rows df ! i) c'"
  using column_normalize_dates_other [of c' cs td df]
  by (metis column_def length_rows_normalize_dates nth_map)



subsection \<open>Grouping, assignment and blanking\<close>

lemma set_group_keys [simp]: "set (group_keys ks) = set ks"
proof -
  have "Some ` the ` {k \<in> set ks. k \<noteq> None} = {k \<in> set ks. k \<noteq> None}"
    by force
  then show ?thesis
    by (auto simp: group_keys_def)
qed

lemma distinct_group_keys [simp]: "distinct (group_keys ks)"
  by (auto simp: group_keys_def distinct_map inj_on_def)

lemma length_group_keys: "length (group_keys ks) = nunique ks"
  by (metis distinct_card distinct_group_keys length_remdups_card_conv nunique_def set_group_keys)

lemma columns_assign_const:
  "columns (assign_const c v df) = (if c \<in> set (columns df) then columns df else columns df @ [c])"
  by (simp add: assign_const_def)

lemma set_columns_assign_const [simp]:
  "set (columns (assign_const c v df)) = insert c (set (columns df))"
  by (auto simp: assign_const_def)

lemma rows_assign_const [simp]:
  "rows (assign_const c v df) = map (\<lambda>r. r(c \<mapsto> v)) (rows df)"
  by (simp add: assign_const_def)

lemma columns_blank_columns [simp]:
  "columns (blank_columns cs h) = columns h"
  by (induction cs arbitrary: h) (simp_all add: columns_assign_const)

lemma rows_blank_columns:
  "rows (blank_columns cs h) = map (blank_row (filter (\<lambda>c. c \<in> set (columns h)) cs)) (rows h)"
proof (induction cs arbitrary: h)
  case Nil
  show ?case by (simp add: blank_row_def)
next
  case (Cons c cs)
  show ?case
    by (auto simp: Cons.IH columns_assign_const blank_row_def fun_eq_iff)
qed

subsection \<open>The sort of lines 106 to 109\<close>

lemma names_distinct [simp]:
  "rebate_column \<noteq> level_column" "level_column \<noteq> rebate_column"
  "rebate_column \<notin> set LUMPSUM_COLUMNS" "level_column \<notin> set LUMPSUM_COLUMNS"
  "rebate_column \<notin> set DATE_COLUMNS" "level_column \<notin> set DATE_COLUMNS"
  "level_sort_column \<noteq> level_column" "level_sort_column \<noteq> rebate_column"
  by (simp_all add: rebate_column_def level_column_def LUMPSUM_COLUMNS_def DATE_COLUMNS_def
      level_sort_column_def)

lemma sort_pair_fill_rebate [simp]: "sort_pair (fill_rebate r) = sort_pair r"
  by (simp add: sort_pair_def fill_rebate_def level_sort_def key_text_def fillna_empty_def
      split: option.splits)

lemma rows_sort_by_rebate_and_level:
  "rows (sort_by_rebate_and_level f) = map fill_rebate (sort_key sort_pair (rows f))"
proof -
  have "rows (sort_by_rebate_and_level f)
      = map fst (sort_key (\<lambda>(r, k). (key_text (r rebate_column), k))
                   (map (\<lambda>r. (fill_rebate r, level_sort r)) (rows f)))"
    by (simp add: sort_by_rebate_and_level_def Let_def comp_def)
  also have "\<dots> = map fst (map (\<lambda>r. (fill_rebate r, level_sort r))
                 (sort_key (\<lambda>r. (key_text (fill_rebate r rebate_column), level_sort r)) (rows f)))"
    by (simp add: sort_key_map_commute)
  also have "(\<lambda>r. (key_text (fill_rebate r rebate_column), level_sort r)) = sort_pair"
    by (simp add: fun_eq_iff sort_pair_def fill_rebate_def key_text_def fillna_empty_def
        split: option.splits)
  finally show ?thesis by (simp add: comp_def)
qed

lemma set_columns_sort_by_rebate_and_level:
  "set (columns (sort_by_rebate_and_level f)) = set (columns f) - {level_sort_column}"
  by (auto simp: sort_by_rebate_and_level_def Let_def)

subsection \<open>Header rows\<close>

lemma groupby_first_present:
  "key \<in> set (columns df) \<Longrightarrow>
   groupby_first key df =
     Inr \<lparr>columns = key # removeAll key (columns df),
          rows = map (first_row key (rows df)) (group_keys (column key df))\<rparr>"
  by (simp add: groupby_first_def)

lemma make_header_rows_present:
  assumes "rebate_column \<in> set (columns df)"
  shows "\<exists>hdr. make_header_rows df = Inr hdr
           \<and> set (columns hdr) = insert level_column (set (columns df))
           \<and> rows hdr = map (header_row (columns df) (rows df))
                           (group_keys (column rebate_column df))"
  using assms
  by (auto simp: make_header_rows_def groupby_first_present rows_blank_columns header_row_def
      columns_assign_const comp_def intro!: arg_cong2 [where f = blank_row] filter_cong)

subsection \<open>When the call returns\<close>

lemma reindex_set_cong: "set cs = set cs' \<Longrightarrow> reindex cs = reindex cs'"
  by (simp add: reindex_def fun_eq_iff)

lemma column_rebate_normalize_dates [simp]:
  "column rebate_column (normalize_dates td DATE_COLUMNS df) = column rebate_column df"
  by (simp add: column_normalize_dates_other)

lemma process_dataframe_returns:
  assumes R: "rebate_column \<in> set (columns df)"
    and N: "level_sort_column \<notin> set (columns df)"
  shows "process_dataframe td df =
           (assign_const level_column ''Lumpsum'' (normalize_dates td DATE_COLUMNS df),
            Inr (\<lparr>columns = columns df,
                  rows = map fill_rebate
                           (sort_key sort_pair (header_part td df @ lumpsum_part td df))\<rparr>,
                 \<lparr>input_rows = length (rows df),
                  distinct_rebates = nunique (column rebate_column df),
                  header_count = nunique (column rebate_column df),
                  lumpsum_count = length (rows df),
                  output_rows = nunique (column rebate_column df) + length (rows df)\<rparr>))"
proof -
  define df1 where "df1 = normalize_dates td DATE_COLUMNS df"
  have R1: "rebate_column \<in> set (columns df1)"
    using R by (simp add: df1_def)
  obtain hdr where hdr: "make_header_rows df1 = Inr hdr"
    and hcols: "set (columns hdr) = insert level_column (set (columns df))"
    and hrows: "rows hdr = map (header_row (columns df) (rows df1)) (group_keys (column rebate_column df))"
    using make_header_rows_present [OF R1] by (auto simp: df1_def)
  define df2 where "df2 = assign_const level_column ''Lumpsum'' df1"
  define cat where "cat = concat_frames hdr df2"
  have c2: "set (columns df2) = insert level_column (set (columns df))"
    by (simp add: df2_def df1_def)
  have rx1: "reindex (columns hdr) = reindex (level_column # columns df)"
    by (rule reindex_set_cong) (simp add: hcols)
  have rx2: "reindex (columns df2) = reindex (level_column # columns df)"
    by (rule reindex_set_cong) (simp add: c2)
  have "rows df2 = map (\<lambda>r. r(level_column \<mapsto> ''Lumpsum'')) (rows df1)"
    by (simp add: df2_def)
  then have cat_rows: "rows cat = header_part td df @ lumpsum_part td df"
    by (simp add: cat_def concat_frames_def rx1 rx2 hrows header_part_def lumpsum_part_def
        Let_def df1_def comp_def)
  have cat_cols: "set (columns cat) = insert level_column (set (columns df))"
    by (auto simp: cat_def concat_frames_def hcols c2)
  define fin where "fin = sort_by_rebate_and_level cat"
  have fin_cols: "set (columns fin) = insert level_column (set (columns df))"
    using N by (auto simp: fin_def set_columns_sort_by_rebate_and_level cat_cols)
  have sel: "select_columns (columns df) fin = Inr \<lparr>columns = columns df, rows = rows fin\<rparr>"
    by (auto simp: select_columns_def Let_def fin_cols filter_empty_conv)
  have fin_rows: "rows fin = map fill_rebate (sort_key sort_pair (header_part td df @ lumpsum_part td df))"
    by (simp add: fin_def rows_sort_by_rebate_and_level cat_rows)
  have len_h: "length (rows hdr) = nunique (column rebate_column df)"
    by (simp add: hrows length_group_keys)
  have len_fin: "length (rows fin) = nunique (column rebate_column df) + length (rows df)"
    by (simp add: fin_rows header_part_def lumpsum_part_def Let_def length_group_keys)
  show ?thesis
    unfolding process_dataframe_def Let_def
    using R1 hdr sel len_h len_fin fin_rows
    by (simp add: df1_def [symmetric] df2_def [symmetric] cat_def [symmetric] fin_def [symmetric])
      (simp add: df1_def)
qed

subsection \<open>Stable sorting into key blocks\<close>

lemma filter_concat_blocks:
  assumes "distinct ks" and "\<And>x. P x \<Longrightarrow> g x = k0"
  shows "filter P (concat (map (\<lambda>k. filter (\<lambda>x. g x = k) H @ filter (\<lambda>x. g x = k) L) ks))
       = (if k0 \<in> set ks then filter P H @ filter P L else [])"
  using assms(1)
proof (induction ks)
  case Nil
  show ?case by simp
next
  case (Cons k ks)
  have eq: "filter (\<lambda>x. g x = k0 \<and> P x) xs = filter P xs" for xs
    using assms(2) by (induction xs) auto
  have ne: "k \<noteq> k0 \<Longrightarrow> filter (\<lambda>x. g x = k \<and> P x) xs = []" for xs
    using assms(2) by (induction xs) auto
  show ?case
  proof (cases "k = k0")
    case True
    with Cons show ?thesis
      by (simp add: eq)
  next
    case False
    with Cons show ?thesis
      by (simp add: ne)
  qed
qed

lemma mset_concat_blocks:
  assumes "distinct ks"
  shows "mset (concat (map (\<lambda>k. filter (\<lambda>x. g x = k) H @ filter (\<lambda>x. g x = k) L) ks))
       = mset (filter (\<lambda>x. g x \<in> set ks) H) + mset (filter (\<lambda>x. g x \<in> set ks) L)"
  using assms
proof (induction ks)
  case Nil
  show ?case by simp
next
  case (Cons k ks)
  have split: "{#x \<in># M. g x = k \<or> g x \<in> set ks#}
             = {#x \<in># M. g x = k#} + {#x \<in># M. g x \<in> set ks#}" for M
    using Cons.prems by (intro multiset_eqI) auto
  from Cons show ?case
    by (simp add: split)
qed

lemma sorted_concat_blocks:
  fixes f :: "'a \<Rightarrow> 'k::linorder \<times> nat"
  assumes "sorted ks" "distinct ks"
    and "\<forall>h\<in>set H. snd (f h) = 0" and "\<forall>l\<in>set L. snd (f l) = 1"
  shows "sorted (map f (concat (map (\<lambda>k. filter (\<lambda>x. fst (f x) = k) H
                                        @ filter (\<lambda>x. fst (f x) = k) L) ks)))"
  using assms(1,2)
proof (induction ks)
  case Nil
  show ?case by simp
next
  case (Cons k ks)
  have hk: "map f (filter (\<lambda>x. fst (f x) = k) H) = replicate (length (filter (\<lambda>x. fst (f x) = k) H)) (k, 0)"
    using assms(3) by (induction H) (auto simp: prod_eq_iff)
  have lk: "map f (filter (\<lambda>x. fst (f x) = k) L) = replicate (length (filter (\<lambda>x. fst (f x) = k) L)) (k, 1)"
    using assms(4) by (induction L) (auto simp: prod_eq_iff)
  have blk: "sorted (map f (filter (\<lambda>x. fst (f x) = k) H) @ map f (filter (\<lambda>x. fst (f x) = k) L))"
    unfolding hk lk by (simp add: sorted_append sorted_replicate)
  have below: "f x \<le> f y"
    if "fst (f x) = k" "fst (f y) \<in> set ks" for x y
  proof -
    from Cons.prems that have "k < fst (f y)"
      by (auto simp: less_le)
    then show ?thesis
      by (metis less_eq_prod_simp prod.collapse that(1))
  qed
  from Cons have IH: "sorted (map f (concat (map (\<lambda>k. filter (\<lambda>x. fst (f x) = k) H
                                        @ filter (\<lambda>x. fst (f x) = k) L) ks)))"
    by simp
  show ?case
    using blk IH below by (auto simp: sorted_append)
qed

lemma sort_key_blocks:
  fixes f :: "'a \<Rightarrow> 'k::linorder \<times> nat"
  assumes H: "\<forall>h\<in>set H. snd (f h) = 0" and L: "\<forall>l\<in>set L. snd (f l) = 1"
  shows "sort_key f (H @ L)
       = concat (map (\<lambda>k. filter (\<lambda>x. fst (f x) = k) H @ filter (\<lambda>x. fst (f x) = k) L)
                   (sort (remdups (map (\<lambda>x. fst (f x)) (H @ L)))))"
    (is "_ = concat (map ?B ?ks)")
proof (rule properties_for_sort_key)
  have d: "distinct ?ks" and s: "sorted ?ks" and m: "set ?ks = (\<lambda>x. fst (f x)) ` set (H @ L)"
    by (simp_all add: image_Un)
  have "filter (\<lambda>x. fst (f x) \<in> set ?ks) H = H" "filter (\<lambda>x. fst (f x) \<in> set ?ks) L = L"
    by (simp_all add: filter_id_conv)
  then show "mset (concat (map ?B ?ks)) = mset (H @ L)"
    using mset_concat_blocks [OF d, of "\<lambda>x. fst (f x)" H L] by simp
  show "sorted (map f (concat (map ?B ?ks)))"
    by (rule sorted_concat_blocks [OF s d H L])
  show "filter (\<lambda>x. f k = f x) (concat (map ?B ?ks)) = filter (\<lambda>x. f k = f x) (H @ L)"
    if "k \<in> set (concat (map ?B ?ks))" for k
  proof -
    from that have "fst (f k) \<in> set ?ks"
      by auto
    then show ?thesis
      using filter_concat_blocks [OF d, of "\<lambda>x. f k = f x" "\<lambda>x. fst (f x)" "fst (f k)" H L]
      by simp
  qed
qed

subsection \<open>The output as key blocks\<close>

lemma level_header_row [simp]: "header_row cs rs k level_column = Some ''Header''"
  by (simp add: header_row_def blank_row_def)

lemma rebate_header_row [simp]: "header_row cs rs k rebate_column = k"
  by (simp add: header_row_def blank_row_def first_row_def)

lemma reindex_apply [simp]: "c \<in> set cs \<Longrightarrow> reindex cs r c = r c"
  by (simp add: reindex_def)

lemma level_sort_header_part:
  "h \<in> set (header_part td df) \<Longrightarrow> snd (sort_pair h) = 0"
  by (auto simp: header_part_def Let_def sort_pair_def level_sort_def)

lemma level_sort_lumpsum_part:
  "l \<in> set (lumpsum_part td df) \<Longrightarrow> snd (sort_pair l) = 1"
  by (auto simp: lumpsum_part_def sort_pair_def level_sort_def)

lemma rebate_header_part:
  "rebate_column \<in> set (columns df) \<Longrightarrow>
   map (\<lambda>h. h rebate_column) (header_part td df) = group_keys (column rebate_column df)"
  by (simp add: header_part_def Let_def comp_def)

lemma rebate_lumpsum_part:
  "rebate_column \<in> set (columns df) \<Longrightarrow>
   map (\<lambda>l. l rebate_column) (lumpsum_part td df) = column rebate_column df"
proof -
  assume "rebate_column \<in> set (columns df)"
  then have "map (\<lambda>l. l rebate_column) (lumpsum_part td df)
           = column rebate_column (normalize_dates td DATE_COLUMNS df)"
    by (simp add: lumpsum_part_def comp_def column_def)
  then show ?thesis by simp
qed

lemma sort_remdups_cong: "set xs = set ys \<Longrightarrow> sort (remdups xs) = sort (remdups ys)"
  by (metis sorted_list_of_set_sort_remdups)

lemma key_texts_of_parts:
  assumes "rebate_column \<in> set (columns df)"
  shows "sort (remdups (map (\<lambda>x. fst (sort_pair x)) (header_part td df @ lumpsum_part td df)))
       = sort (remdups (map key_text (column rebate_column df)))"
proof (rule sort_remdups_cong)
  have A: "set (map (\<lambda>x. fst (sort_pair x)) xs) = key_text ` set (map (\<lambda>h. h rebate_column) xs)"
    for xs :: "row list"
    by (force simp: sort_pair_def)
  have "set (map (\<lambda>x. fst (sort_pair x)) (header_part td df @ lumpsum_part td df))
      = key_text ` set (map (\<lambda>h. h rebate_column) (header_part td df))
        \<union> key_text ` set (map (\<lambda>h. h rebate_column) (lumpsum_part td df))"
    unfolding map_append set_append A ..
  also have "\<dots> = key_text ` set (column rebate_column df)"
    unfolding rebate_header_part [OF assms] rebate_lumpsum_part [OF assms] set_group_keys by simp
  finally show "set (map (\<lambda>x. fst (sort_pair x)) (header_part td df @ lumpsum_part td df))
           = set (map key_text (column rebate_column df))"
    by simp
qed

lemma sorted_parts_blocks:
  assumes "rebate_column \<in> set (columns df)"
  shows "sort_key sort_pair (header_part td df @ lumpsum_part td df)
       = concat (map (\<lambda>k. filter (\<lambda>r. key_text (r rebate_column) = k) (header_part td df)
                          @ filter (\<lambda>r. key_text (r rebate_column) = k) (lumpsum_part td df))
                   (sort (remdups (map key_text (column rebate_column df)))))"
proof -
  have fst_pair: "fst (sort_pair x) = key_text (x rebate_column)" for x
    by (simp add: sort_pair_def)
  have "sort_key sort_pair (header_part td df @ lumpsum_part td df)
      = concat (map (\<lambda>k. filter (\<lambda>x. fst (sort_pair x) = k) (header_part td df)
                          @ filter (\<lambda>x. fst (sort_pair x) = k) (lumpsum_part td df))
                   (sort (remdups (map (\<lambda>x. fst (sort_pair x))
                                    (header_part td df @ lumpsum_part td df)))))"
    by (rule sort_key_blocks) (simp_all add: level_sort_header_part level_sort_lumpsum_part)
  then show ?thesis
    unfolding key_texts_of_parts [OF assms] unfolding fst_pair .
qed

lemma visible_fill_reindex:
  assumes "rebate_column \<in> set cs"
  shows "map (fill_rebate (reindex (level_column # cs) x)) cs = map (fill_rebate x) cs"
  using assms by (auto simp: fill_rebate_def)

lemma filter_key_reindex:
  assumes "rebate_column \<in> set cs"
  shows "filter (\<lambda>r. key_text (r rebate_column) = k) (map (reindex (level_column # cs)) xs)
       = map (reindex (level_column # cs)) (filter (\<lambda>r. key_text (r rebate_column) = k) xs)"
  using assms by (simp add: filter_map comp_def)

lemma visible_block:
  assumes "rebate_column \<in> set cs"
  shows "map (\<lambda>r. map r cs)
           (map fill_rebate (filter (\<lambda>r. key_text (r rebate_column) = k)
                               (map (reindex (level_column # cs)) xs)))
       = map (\<lambda>r. map (fill_rebate r) cs) (filter (\<lambda>r. key_text (r rebate_column) = k) xs)"
  by (simp add: filter_key_reindex [OF assms] comp_def visible_fill_reindex [OF assms])

lemma valid_has_rebate: "validate_columns df = [] \<Longrightarrow> rebate_column \<in> set (columns df)"
  unfolding validate_columns_def filter_empty_conv
  by (simp add: REQUIRED_COLUMNS_def rebate_column_def)

lemma map_concat_blocks:
  assumes "\<And>k. map g (B k) = B' k"
  shows "map g (concat (map B ks)) = concat (map B' ks)"
  by (induction ks) (simp_all add: assms)

lemma distinct_REQUIRED_COLUMNS: "distinct REQUIRED_COLUMNS"
  by (simp add: REQUIRED_COLUMNS_def)

lemma ex_babc_valid: "validate_columns ex_babc = []"
  by (simp add: validate_columns_def ex_babc_def ex_header_def REQUIRED_COLUMNS_def)

subsection \<open>Keys of the output\<close>

lemma sorted_map_fst:
  fixes xs :: "('a::linorder \<times> 'b::linorder) list"
  shows "sorted xs \<Longrightarrow> sorted (map fst xs)"
  by (induction xs) (auto simp: less_eq_prod_def)

lemma fill_rebate_rebate [simp]:
  "fill_rebate r rebate_column = Some (key_text (r rebate_column))"
  by (simp add: fill_rebate_def fillna_empty_def key_text_def split: option.splits)

lemma fill_rebate_other [simp]:
  "c \<noteq> rebate_column \<Longrightarrow> fill_rebate r c = r c"
  by (simp add: fill_rebate_def)

lemma count_empty_text_keys:
  assumes "distinct ks"
  shows "length (filter (\<lambda>k. key_text k = '''') ks)
       = (if None \<in> set ks then 1 else 0) + (if Some '''' \<in> set ks then 1 else 0)"
  using assms
proof (induction ks)
  case Nil
  show ?case by simp
next
  case (Cons k ks)
  have kt: "key_text k = '''' \<longleftrightarrow> k = None \<or> k = Some ''''"
    by (cases k) (simp_all add: key_text_def)
  from Cons show ?case
    by (auto simp: kt)
qed

lemma level_header_part:
  "h \<in> set (header_part td df) \<Longrightarrow> h level_column = Some ''Header''"
  by (auto simp: header_part_def Let_def)

lemma level_lumpsum_part:
  "l \<in> set (lumpsum_part td df) \<Longrightarrow> l level_column = Some ''Lumpsum''"
  by (auto simp: lumpsum_part_def)

lemma filter_headers_sorted_parts:
  "filter (\<lambda>r. r level_column = Some ''Header'')
     (sort_key sort_pair (header_part td df @ lumpsum_part td df))
   = sort_key sort_pair (header_part td df)"
proof -
  have "filter (\<lambda>r. r level_column = Some ''Header'') (header_part td df) = header_part td df"
    by (simp add: filter_id_conv level_header_part)
  moreover have "filter (\<lambda>r. r level_column = Some ''Header'') (lumpsum_part td df) = []"
    by (auto simp: filter_empty_conv dest: level_lumpsum_part)
  ultimately show ?thesis
    by (simp add: filter_sort)
qed

lemma filter_lumpsums_sorted_parts:
  "filter (\<lambda>r. r level_column = Some ''Lumpsum'')
     (sort_key sort_pair (header_part td df @ lumpsum_part td df))
   = sort_key sort_pair (lumpsum_part td df)"
proof -
  have "filter (\<lambda>r. r level_column = Some ''Lumpsum'') (lumpsum_part td df) = lumpsum_part td df"
    by (simp add: filter_id_conv level_lumpsum_part)
  moreover have "filter (\<lambda>r. r level_column = Some ''Lumpsum'') (header_part td df) = []"
    by (auto simp: filter_empty_conv dest: level_header_part)
  ultimately show ?thesis
    by (simp add: filter_sort)
qed

subsection \<open>Cells of a header row\<close>

lemma insort_key_const_rank:
  fixes f :: "'a \<Rightarrow> 'k::linorder \<times> nat"
  assumes "\<forall>y\<in>set (x # ys). f y = (g y, c)"
  shows "insort_key f x ys = insort_key g x ys"
  using assms by (induction ys) (auto simp: less_eq_prod_simp)

lemma sort_key_const_rank:
  fixes f :: "'a \<Rightarrow> 'k::linorder \<times> nat"
  assumes "\<forall>y\<in>set xs. f y = (g y, c)"
  shows "sort_key f xs = sort_key g xs"
  using assms
proof (induction xs)
  case Nil
  show ?case by simp
next
  case (Cons x xs)
  then have "sort_key f xs = sort_key g xs"
    by simp
  moreover have "insort_key f x (sort_key g xs) = insort_key g x (sort_key g xs)"
    by (rule insort_key_const_rank [where c = c]) (use Cons.prems in simp)
  ultimately show ?case by simp
qed

lemma map_filter_agree:
  assumes "length xs = length ys"
    and "\<forall>i<length xs. p (xs ! i) = q (ys ! i) \<and> f (xs ! i) = g (ys ! i)"
  shows "map f (filter p xs) = map g (filter q ys)"
  using assms
proof (induction xs ys rule: list_induct2)
  case Nil
  show ?case by simp
next
  case (Cons x xs y ys)
  from Cons.prems have hd: "p x = q y" "f x = g y"
    by force+
  from Cons.prems have "\<forall>i<length xs. p (xs ! i) = q (ys ! i) \<and> f (xs ! i) = g (ys ! i)"
    by force
  with Cons.IH have "map f (filter p xs) = map g (filter q ys)"
    by simp
  with hd show ?case by simp
qed

lemma group_column_normalize_dates:
  assumes "c \<notin> set DATE_COLUMNS"
  shows "map (\<lambda>r. r c) (filter (\<lambda>r. r rebate_column = k) (rows (normalize_dates td DATE_COLUMNS df)))
       = map (\<lambda>r. r c) (filter (\<lambda>r. r rebate_column = k) (rows df))"
  by (rule map_filter_agree) (simp_all add: nth_rows_normalize_dates_other assms)

lemma LUMPSUM_has_DATE: "c \<in> set DATE_COLUMNS \<Longrightarrow> c \<in> set LUMPSUM_COLUMNS"
  by (auto simp: DATE_COLUMNS_def LUMPSUM_COLUMNS_def)

lemma header_row_cell:
  assumes "c \<in> set cs"
  shows "header_row cs (rows (normalize_dates td DATE_COLUMNS df)) k c =
           (if c = level_column then Some ''Header''
            else if c \<in> set LUMPSUM_COLUMNS then Some ''''
            else if c = rebate_column then k
            else first_valid (map (\<lambda>r. r c) (filter (\<lambda>r. r rebate_column = k) (rows df))))"
proof -
  have "first_row rebate_column (rows (normalize_dates td DATE_COLUMNS df)) k c
      = first_valid (map (\<lambda>r. r c) (filter (\<lambda>r. r rebate_column = k) (rows df)))"
    if "c \<notin> set LUMPSUM_COLUMNS" "c \<noteq> rebate_column"
  proof -
    from that have "c \<notin> set DATE_COLUMNS"
      using LUMPSUM_has_DATE [of c] by blast
    then show ?thesis
      using that by (simp add: first_row_def group_column_normalize_dates)
  qed
  then show ?thesis
    using assms by (auto simp: header_row_def blank_row_def first_row_def)
qed

lemma first_valid_hd:
  "vs \<noteq> [] \<Longrightarrow> hd vs \<noteq> None \<Longrightarrow> first_valid vs = hd vs"
  by (cases vs rule: first_valid.cases) simp_all

lemma sort_key_header_part:
  "sort_key sort_pair (header_part td df) = sort_key (\<lambda>r. key_text (r rebate_column)) (header_part td df)"
proof (rule sort_key_const_rank [where c = 0])
  show "\<forall>y\<in>set (header_part td df). sort_pair y = (key_text (y rebate_column), 0)"
    using level_sort_header_part [of _ td df] by (auto simp: sort_pair_def)
qed


subsection \<open>Rendered dates and the caller's table\<close>

lemma digit_value_digit [simp]: "digit_value (digit d) = Some (d mod 10)"
proof -
  have "48 + d mod 10 < 256" "48 + d mod 10 \<le> 57"
    by simp_all
  then show ?thesis
    by (simp add: digit_value_def digit_def Let_def)
qed



subsection \<open>Normalizing twice\<close>






subsection \<open>The example parser reads its own output back\<close>


lemma of_char_digit: "of_char (digit d) = (48 + d mod 10 :: nat)"
  by (simp add: digit_def)

lemma digit_not_slash [simp]: "digit d \<noteq> CHR ''/''"
proof
  assume "digit d = CHR ''/''"
  then have "(of_char (digit d) :: nat) = of_char CHR ''/''"
    by simp
  then show False
    by (simp add: of_char_digit)
qed

lemma digit_not_dash [simp]: "digit d \<noteq> CHR ''-''"
proof
  assume "digit d = CHR ''-''"
  then have "(of_char (digit d) :: nat) = of_char CHR ''-''"
    by simp
  then show False
    by (simp add: of_char_digit)
qed















lemma parse_empty [simp]: "parse_mdY '''' = None" "parse_iso '''' = None" "parse_dmY '''' = None"
  by (simp_all add: parse_mdY_def parse_iso_def parse_dmY_def)

lemma parse_with_empty [simp]: "parse_with f '''' = None"
  by (simp add: parse_with_def split: option.splits date_format.splits)

lemma strftime_not_empty [simp]: "strftime_mdY t \<noteq> []"
  by (simp add: strftime_mdY_def)






subsection \<open>A column named like the scratch column\<close>

lemma process_dataframe_scratch_clash:
  assumes R: "rebate_column \<in> set (columns df)"
    and N: "level_sort_column \<in> set (columns df)"
  shows "snd (process_dataframe td df)
       = Inl (KeyError (filter (\<lambda>c. c = level_sort_column) (columns df)))"
proof -
  define df1 where "df1 = normalize_dates td DATE_COLUMNS df"
  have R1: "rebate_column \<in> set (columns df1)"
    using R by (simp add: df1_def)
  obtain hdr where hdr: "make_header_rows df1 = Inr hdr"
    and hcols: "set (columns hdr) = insert level_column (set (columns df))"
    using make_header_rows_present [OF R1] by (auto simp: df1_def)
  define df2 where "df2 = assign_const level_column ''Lumpsum'' df1"
  define fin where "fin = sort_by_rebate_and_level (concat_frames hdr df2)"
  have "set (columns (concat_frames hdr df2)) = insert level_column (set (columns df))"
    by (auto simp: concat_frames_def hcols df2_def df1_def)
  then have fin_cols: "set (columns fin) = insert level_column (set (columns df)) - {level_sort_column}"
    by (simp add: fin_def set_columns_sort_by_rebate_and_level)
  have miss: "filter (\<lambda>c. c \<notin> set (columns fin)) (columns df)
            = filter (\<lambda>c. c = level_sort_column) (columns df)"
    by (rule filter_cong) (auto simp: fin_cols)
  have ne: "filter (\<lambda>c. c = level_sort_column) (columns df) \<noteq> []"
    using N by (auto simp: filter_empty_conv)
  have sel: "select_columns (columns df) fin
           = Inl (KeyError (filter (\<lambda>c. c = level_sort_column) (columns df)))"
    using ne by (simp add: select_columns_def Let_def miss)
  show ?thesis
    unfolding process_dataframe_def Let_def
    using R1 hdr sel
    by (simp add: df1_def [symmetric] df2_def [symmetric] fin_def [symmetric])
qed

lemma valid_has_dates:
  "validate_columns df = [] \<Longrightarrow> c \<in> set DATE_COLUMNS \<Longrightarrow> c \<in> set (columns df)"
  unfolding validate_columns_def filter_empty_conv
  by (auto simp: REQUIRED_COLUMNS_def DATE_COLUMNS_def)

text \<open>
  On every valid table without a column named like the scratch column, the call returns
  the input's column order and the metrics the input determines.
\<close>

lemma returns_columns_and_metrics:
  assumes "validate_columns df = []" and "level_sort_column \<notin> set (columns df)"
  shows "\<exists>out m. snd (process_dataframe td df) = Inr (out, m)
     \<and> columns out = columns df
     \<and> input_rows m = length (rows df)
     \<and> distinct_rebates m = card (set (column rebate_column df))
     \<and> header_count m = distinct_rebates m
     \<and> lumpsum_count m = input_rows m
     \<and> output_rows m = header_count m + lumpsum_count m
     \<and> output_rows m = length (rows out)"
  using process_dataframe_returns [OF valid_has_rebate [OF assms(1)] assms(2), of td]
  by (simp add: nunique_def length_remdups_card_conv header_part_def lumpsum_part_def Let_def
      length_group_keys [unfolded nunique_def])

subsection \<open>Tier order and stability\<close>

lemma sort_key_lumpsum_part:
  "sort_key sort_pair (lumpsum_part td df)
     = sort_key (\<lambda>r. key_text (r rebate_column)) (lumpsum_part td df)"
proof (rule sort_key_const_rank [where c = 1])
  show "\<forall>y\<in>set (lumpsum_part td df). sort_pair y = (key_text (y rebate_column), 1)"
    using level_sort_lumpsum_part [of _ td df] by (auto simp: sort_pair_def)
qed

lemma mset_group_keys: "mset (group_keys ks) = mset (remdups ks)"
  by (rule set_eq_iff_mset_eq_distinct [THEN iffD1]) simp_all

text \<open>
  On every valid table without a column named like the scratch column: each distinct
  key has its one Header row, a Header row stands before every Lumpsum row with the same
  key text, and the Lumpsum rows of a key text are the caller's rows of that key text in
  their original order.
\<close>

lemma header_first_and_stable:
  assumes "validate_columns df = []" and "level_sort_column \<notin> set (columns df)"
  shows "\<exists>out m. snd (process_dataframe td df) = Inr (out, m)
     \<and> mset (header_keys out) = mset (map fillna_empty (remdups (column rebate_column df)))
     \<and> (\<forall>i j. i < length (rows out) \<longrightarrow> j < length (rows out) \<longrightarrow>
            (rows out ! i) level_column = Some ''Header'' \<longrightarrow>
            (rows out ! j) level_column = Some ''Lumpsum'' \<longrightarrow>
            (rows out ! i) rebate_column = (rows out ! j) rebate_column \<longrightarrow> i < j)
     \<and> (\<forall>k. map (\<lambda>r. map r (columns df))
               (filter (\<lambda>r. r rebate_column = Some k)
                  (filter (\<lambda>r. r level_column = Some ''Lumpsum'') (rows out)))
           = map (\<lambda>r. map (fill_rebate r) (columns df))
               (filter (\<lambda>r. key_text (r rebate_column) = k)
                  (rows (fst (process_dataframe td df)))))"
proof -
  have R: "rebate_column \<in> set (columns df)"
    by (rule valid_has_rebate [OF assms(1)])
  define xs where "xs = sort_key sort_pair (header_part td df @ lumpsum_part td df)"
  define out where "out = \<lparr>columns = columns df, rows = map fill_rebate xs\<rparr>"
  define df2 where "df2 = assign_const level_column ''Lumpsum'' (normalize_dates td DATE_COLUMNS df)"
  obtain m where run: "process_dataframe td df = (df2, Inr (out, m))"
    using process_dataframe_returns [OF R assms(2), of td] by (simp add: out_def xs_def df2_def)
  have lvl: "fill_rebate r level_column = r level_column" for r
    by simp
  \<comment> \<open>one Header row per distinct key\<close>
  have "header_keys out
      = map (\<lambda>r. Some (key_text (r rebate_column)))
          (filter (\<lambda>r. r level_column = Some ''Header'') xs)"
    by (simp add: header_keys_def out_def filter_map comp_def)
  also have "\<dots> = map (\<lambda>r. Some (key_text (r rebate_column))) (sort_key sort_pair (header_part td df))"
    unfolding xs_def filter_headers_sorted_parts ..
  finally have "mset (header_keys out)
      = mset (map (\<lambda>k. Some (key_text k)) (map (\<lambda>h. h rebate_column) (header_part td df)))"
    by (simp add: comp_def)
  also have "\<dots> = mset (map (\<lambda>k. Some (key_text k)) (remdups (column rebate_column df)))"
    unfolding rebate_header_part [OF R] by (simp add: mset_group_keys)
  also have "(\<lambda>k. Some (key_text k)) = fillna_empty"
    by (auto simp: fun_eq_iff key_text_def fillna_empty_def split: option.splits)
  finally have one: "mset (header_keys out) = mset (map fillna_empty (remdups (column rebate_column df)))" .
  \<comment> \<open>Header before Lumpsum\<close>
  have srt: "sorted (map sort_pair xs)"
    unfolding xs_def by (rule sorted_sort_key)
  have before: "i < j"
    if i: "i < length (rows out)" and j: "j < length (rows out)"
      and hi: "(rows out ! i) level_column = Some ''Header''"
      and lj: "(rows out ! j) level_column = Some ''Lumpsum''"
      and same: "(rows out ! i) rebate_column = (rows out ! j) rebate_column" for i j
  proof (rule ccontr)
    assume "\<not> i < j"
    then have ji: "j \<le> i" by simp
    from i j have i': "i < length xs" and j': "j < length xs"
      by (simp_all add: out_def)
    from hi i' have ri: "level_sort (xs ! i) = 0"
      by (simp add: out_def level_sort_def)
    from lj j' have rj: "level_sort (xs ! j) = 1"
      by (simp add: out_def level_sort_def)
    from same i' j' have kk: "key_text ((xs ! i) rebate_column) = key_text ((xs ! j) rebate_column)"
      by (simp add: out_def)
    from srt ji i' j' have "sort_pair (xs ! j) \<le> sort_pair (xs ! i)"
      by (simp add: sorted_iff_nth_mono)
    with ri rj kk show False
      by (simp add: sort_pair_def less_eq_prod_simp)
  qed
  \<comment> \<open>Lumpsum rows keep their order\<close>
  have lp: "lumpsum_part td df = map (reindex (level_column # columns df)) (rows df2)"
    by (simp add: lumpsum_part_def df2_def)
  have stable: "map (\<lambda>r. map r (columns df))
               (filter (\<lambda>r. r rebate_column = Some k)
                  (filter (\<lambda>r. r level_column = Some ''Lumpsum'') (rows out)))
           = map (\<lambda>r. map (fill_rebate r) (columns df))
               (filter (\<lambda>r. key_text (r rebate_column) = k) (rows df2))" for k
  proof -
    have "filter (\<lambda>r. r level_column = Some ''Lumpsum'') (rows out)
        = map fill_rebate (sort_key (\<lambda>r. key_text (r rebate_column)) (lumpsum_part td df))"
      by (simp add: out_def filter_map comp_def xs_def filter_lumpsums_sorted_parts
          sort_key_lumpsum_part)
    then have "filter (\<lambda>r. r rebate_column = Some k)
                 (filter (\<lambda>r. r level_column = Some ''Lumpsum'') (rows out))
        = map fill_rebate (filter (\<lambda>r. key_text (r rebate_column) = k)
            (sort_key (\<lambda>r. key_text (r rebate_column)) (lumpsum_part td df)))"
      by (simp add: filter_map comp_def)
    also have "\<dots> = map fill_rebate (filter (\<lambda>r. key_text (r rebate_column) = k) (lumpsum_part td df))"
      by (simp only: sort_key_stable)
    finally show ?thesis
      unfolding lp using visible_block [OF R, of k "rows df2"] by simp
  qed
  from run one before stable show ?thesis
    by (simp del: filter_filter)
qed

subsection \<open>The example tables are valid\<close>

lemma ex_babc_no_scratch: "level_sort_column \<notin> set (columns ex_babc)"
  by (simp add: ex_babc_def ex_header_def level_sort_column_def)

lemma ex_note_valid: "validate_columns ex_note = []"
  by (simp add: validate_columns_def ex_note_def ex_header_def REQUIRED_COLUMNS_def)

lemma ex_note_no_scratch: "level_sort_column \<notin> set (columns ex_note)"
  by (simp add: ex_note_def ex_header_def level_sort_column_def)

lemma ex_note_all_text: "all_text ex_note"
  by (simp add: all_text_def ex_note_def ex_header_def ex_detail_def mk_row_def)

lemma ex_empty_key_valid: "validate_columns ex_empty_key = []"
  by (simp add: validate_columns_def ex_empty_key_def ex_header_def REQUIRED_COLUMNS_def)

lemma ex_empty_key_no_scratch: "level_sort_column \<notin> set (columns ex_empty_key)"
  by (simp add: ex_empty_key_def ex_header_def level_sort_column_def)

subsection \<open>Header rows and key texts on frames that may have missing cells\<close>

text \<open>
  A frame built by other means than the ingestion may hold missing cells. There
  \<^verbatim>\<open>GroupBy.first()\<close> takes the first entry that is not missing, column by column, and
  the missing key is a group of its own beside the empty text.
\<close>

lemma header_row_contents:
  assumes "validate_columns df = []" and "level_sort_column \<notin> set (columns df)"
  shows "\<exists>hdr out m.
      make_header_rows (normalize_dates td DATE_COLUMNS df) = Inr hdr
    \<and> snd (process_dataframe td df) = Inr (out, m)
    \<and> map (\<lambda>r. map r (columns df)) (filter (\<lambda>r. r level_column = Some ''Header'') (rows out))
        = map (\<lambda>r. map (fill_rebate r) (columns df))
            (sort_key (\<lambda>r. key_text (r rebate_column)) (rows hdr))
    \<and> length (rows hdr) = length (group_keys (column rebate_column df))
    \<and> (\<forall>i<length (rows hdr). \<forall>c\<in>set (columns df).
          (rows hdr ! i) c =
            (if c = level_column then Some ''Header''
             else if c \<in> set LUMPSUM_COLUMNS then Some ''''
             else if c = rebate_column then group_keys (column rebate_column df) ! i
             else first_valid
                    (map (\<lambda>r. r c)
                       (filter (\<lambda>r. r rebate_column = group_keys (column rebate_column df) ! i)
                          (rows df)))))
    \<and> (\<forall>i<length (rows hdr). \<forall>c\<in>set (columns df).
          filter (\<lambda>r. r rebate_column = group_keys (column rebate_column df) ! i) (rows df) \<noteq> []
          \<and> (c \<noteq> level_column \<longrightarrow> c \<notin> set LUMPSUM_COLUMNS \<longrightarrow>
             hd (filter (\<lambda>r. r rebate_column = group_keys (column rebate_column df) ! i)
                   (rows df)) c \<noteq> None \<longrightarrow>
             (rows hdr ! i) c
               = hd (filter (\<lambda>r. r rebate_column = group_keys (column rebate_column df) ! i)
                       (rows df)) c))"
proof -
  define df1 where "df1 = normalize_dates td DATE_COLUMNS df"
  define gk where "gk = group_keys (column rebate_column df)"
  have R: "rebate_column \<in> set (columns df)"
    by (rule valid_has_rebate [OF assms(1)])
  then have R1: "rebate_column \<in> set (columns df1)"
    by (simp add: df1_def)
  obtain hdr where hdr: "make_header_rows df1 = Inr hdr"
    and hrows: "rows hdr = map (header_row (columns df) (rows df1)) gk"
    using make_header_rows_present [OF R1] by (auto simp: df1_def gk_def)
  define xs where "xs = sort_key sort_pair (header_part td df @ lumpsum_part td df)"
  define out where "out = \<lparr>columns = columns df, rows = map fill_rebate xs\<rparr>"
  obtain m where run: "snd (process_dataframe td df) = Inr (out, m)"
    using process_dataframe_returns [OF R assms(2), of td] by (simp add: out_def xs_def)
  have hp: "header_part td df = map (reindex (level_column # columns df)) (rows hdr)"
    by (simp add: header_part_def Let_def hrows df1_def gk_def)
  have key_reindex: "(\<lambda>r. key_text (reindex (level_column # columns df) r rebate_column))
                   = (\<lambda>r. key_text (r rebate_column))"
    using R by (simp add: fun_eq_iff)
  have "filter (\<lambda>r. r level_column = Some ''Header'') (rows out)
      = map fill_rebate (filter (\<lambda>r. r level_column = Some ''Header'') xs)"
    by (simp add: out_def filter_map comp_def)
  also have "\<dots> = map fill_rebate (sort_key (\<lambda>r. key_text (r rebate_column)) (header_part td df))"
    unfolding xs_def filter_headers_sorted_parts sort_key_header_part ..
  also have "\<dots> = map fill_rebate (map (reindex (level_column # columns df))
                      (sort_key (\<lambda>r. key_text (r rebate_column)) (rows hdr)))"
    unfolding hp sort_key_map_commute key_reindex ..
  finally have "map (\<lambda>r. map r (columns df))
                  (filter (\<lambda>r. r level_column = Some ''Header'') (rows out))
      = map (\<lambda>r. map (fill_rebate r) (columns df))
          (sort_key (\<lambda>r. key_text (r rebate_column)) (rows hdr))"
    using visible_fill_reindex [OF R] by (simp add: comp_def)
  moreover have "length (rows hdr) = length gk"
    by (simp add: hrows)
  moreover have "(rows hdr ! i) c =
            (if c = level_column then Some ''Header''
             else if c \<in> set LUMPSUM_COLUMNS then Some ''''
             else if c = rebate_column then gk ! i
             else first_valid (map (\<lambda>r. r c) (filter (\<lambda>r. r rebate_column = gk ! i) (rows df))))"
    if "i < length (rows hdr)" "c \<in> set (columns df)" for i c
    using that by (simp add: hrows df1_def header_row_cell)
  moreover have "filter (\<lambda>r. r rebate_column = gk ! i) (rows df) \<noteq> []
          \<and> (c \<noteq> level_column \<longrightarrow> c \<notin> set LUMPSUM_COLUMNS \<longrightarrow>
             hd (filter (\<lambda>r. r rebate_column = gk ! i) (rows df)) c \<noteq> None \<longrightarrow>
             (rows hdr ! i) c = hd (filter (\<lambda>r. r rebate_column = gk ! i) (rows df)) c)"
    if i: "i < length (rows hdr)" and c: "c \<in> set (columns df)" for i c
  proof -
    let ?grp = "filter (\<lambda>r. r rebate_column = gk ! i) (rows df)"
    from i have "gk ! i \<in> set gk"
      by (simp add: hrows)
    then have "gk ! i \<in> set (column rebate_column df)"
      by (simp add: gk_def)
    then have ne: "?grp \<noteq> []"
      by (auto simp: column_def filter_empty_conv)
    have "(rows hdr ! i) c = hd ?grp c"
      if "c \<noteq> level_column" "c \<notin> set LUMPSUM_COLUMNS" "hd ?grp c \<noteq> None"
    proof (cases "c = rebate_column")
      case True
      from ne have "hd ?grp \<in> set ?grp"
        by (rule hd_in_set)
      then have "hd ?grp rebate_column = gk ! i"
        by simp
      with True i c show ?thesis
        by (simp add: hrows df1_def header_row_cell)
    next
      case False
      have "first_valid (map (\<lambda>r. r c) ?grp) = hd (map (\<lambda>r. r c) ?grp)"
        using ne that(3) by (intro first_valid_hd) (simp_all add: hd_map)
      with False that i c ne show ?thesis
        by (simp add: hrows df1_def header_row_cell hd_map)
    qed
    with ne show ?thesis by blast
  qed
  ultimately show ?thesis
    using hdr run unfolding df1_def gk_def by blast
qed

lemma missing_and_empty_keys:
  assumes "validate_columns df = []" and "level_sort_column \<notin> set (columns df)"
  shows "\<exists>out m. snd (process_dataframe td df) = Inr (out, m)
     \<and> distinct_rebates m = card (set (column rebate_column df))
     \<and> header_count m = card (set (column rebate_column df))
     \<and> length (filter (\<lambda>r. r level_column = Some ''Header'' \<and> r rebate_column = Some '''')
                  (rows out))
         = (if None \<in> set (column rebate_column df) then 1 else 0)
           + (if Some '''' \<in> set (column rebate_column df) then 1 else 0)
     \<and> (\<forall>r\<in>set (rows out). r rebate_column \<noteq> None)
     \<and> sorted (map (\<lambda>r. key_text (r rebate_column)) (rows out))"
proof -
  have R: "rebate_column \<in> set (columns df)"
    by (rule valid_has_rebate [OF assms(1)])
  define xs where "xs = sort_key sort_pair (header_part td df @ lumpsum_part td df)"
  define out where "out = \<lparr>columns = columns df, rows = map fill_rebate xs\<rparr>"
  obtain m where run: "snd (process_dataframe td df) = Inr (out, m)"
    and dr: "distinct_rebates m = nunique (column rebate_column df)"
    and hc: "header_count m = nunique (column rebate_column df)"
    using process_dataframe_returns [OF R assms(2), of td] by (simp add: out_def xs_def)
  have card: "nunique (column rebate_column df) = card (set (column rebate_column df))"
    by (simp add: nunique_def length_remdups_card_conv)
  have "filter (\<lambda>r. r level_column = Some ''Header'' \<and> r rebate_column = Some '''') (rows out)
      = map fill_rebate (filter (\<lambda>r. key_text (r rebate_column) = '''')
                           (filter (\<lambda>r. r level_column = Some ''Header'') xs))"
    by (simp add: out_def filter_map comp_def conj_commute)
  also have "filter (\<lambda>r. r level_column = Some ''Header'') xs = sort_key sort_pair (header_part td df)"
    unfolding xs_def by (rule filter_headers_sorted_parts)
  finally have "length (filter (\<lambda>r. r level_column = Some ''Header'' \<and> r rebate_column = Some '''')
                          (rows out))
      = length (filter (\<lambda>r. key_text (r rebate_column) = '''') (header_part td df))"
    by (simp add: filter_sort)
  also have "\<dots> = length (filter (\<lambda>k. key_text k = '''')
                          (map (\<lambda>h. h rebate_column) (header_part td df)))"
    by (simp add: filter_map comp_def)
  also have "\<dots> = (if None \<in> set (column rebate_column df) then 1 else 0)
           + (if Some '''' \<in> set (column rebate_column df) then 1 else 0)"
    unfolding rebate_header_part [OF R] using count_empty_text_keys [of "group_keys (column rebate_column df)"]
    by simp
  finally have heads: "length (filter (\<lambda>r. r level_column = Some ''Header'' \<and> r rebate_column = Some '''')
                          (rows out))
       = (if None \<in> set (column rebate_column df) then 1 else 0)
           + (if Some '''' \<in> set (column rebate_column df) then 1 else 0)" .
  have nonone: "\<forall>r\<in>set (rows out). r rebate_column \<noteq> None"
    by (auto simp: out_def)
  have "map (\<lambda>r. key_text (r rebate_column)) (rows out) = map fst (map sort_pair xs)"
    by (simp add: out_def comp_def sort_pair_def key_text_def)
  moreover have "sorted (map sort_pair xs)"
    unfolding xs_def by (rule sorted_sort_key)
  ultimately have srt: "sorted (map (\<lambda>r. key_text (r rebate_column)) (rows out))"
    by (simp only: sorted_map_fst)
  from run dr hc card heads nonone srt show ?thesis
    by auto
qed

subsection \<open>Rendered fields, text tables and the empty key text\<close>


lemma visible_fill_text:
  assumes "r rebate_column \<noteq> None"
  shows "map (fill_rebate r) cs = map r cs"
proof -
  from assms have "fill_rebate r = r"
    by (auto simp: fill_rebate_def fillna_empty_def fun_eq_iff split: option.splits)
  then show ?thesis by simp
qed

lemma all_textD: "all_text df \<Longrightarrow> r \<in> set (rows df) \<Longrightarrow> c \<in> set (columns df) \<Longrightarrow> r c \<noteq> None"
  by (simp add: all_text_def)

lemma all_text_keys:
  assumes "all_text df" and "rebate_column \<in> set (columns df)"
  shows "None \<notin> set (column rebate_column df)"
proof
  assume "None \<in> set (column rebate_column df)"
  then obtain r where "r \<in> set (rows df)" "r rebate_column = None"
    by (auto simp: column_def)
  with all_textD [OF assms(1) this(1) assms(2)] show False
    by simp
qed

lemma first_valid_text:
  assumes "vs \<noteq> []" and "None \<notin> set vs"
  shows "first_valid vs = hd vs"
  using assms by (cases vs rule: first_valid.cases) simp_all

lemma key_text_empty_iff: "key_text k = '''' \<longleftrightarrow> k = None \<or> k = Some ''''"
  by (cases k) (simp_all add: key_text_def)

lemma count_empty_text_one:
  assumes "distinct ks" and "None \<notin> set ks \<or> Some '''' \<notin> set ks"
  shows "length (filter (\<lambda>k. key_text k = '''') ks)
       = (if \<exists>k\<in>set ks. key_text k = '''' then 1 else 0)"
proof -
  have "(\<exists>k\<in>set ks. key_text k = '''') \<longleftrightarrow> None \<in> set ks \<or> Some '''' \<in> set ks"
    by (auto simp: key_text_empty_iff)
  with assms(2) show ?thesis
    unfolding count_empty_text_keys [OF assms(1)] by auto
qed

section \<open>The claims\<close>

subsection \<open>Column validation\<close>

text \<open>
  C4. \<^verbatim>\<open>validate_columns\<close> returns exactly the required names that the table lacks, in the
  declared order and without repetition; the result is empty if and only if all seven
  required columns are present; and taking any set \<open>R\<close> of required columns away from a
  valid table gives a result that consists of the names in \<open>R\<close> and has as many entries as
  \<open>R\<close> has elements.
\<close>

theorem validate_columns_reports_missing:
  "set (validate_columns df) = set REQUIRED_COLUMNS - set (columns df)
   \<and> subseq (validate_columns df) REQUIRED_COLUMNS
   \<and> distinct (validate_columns df)
   \<and> length REQUIRED_COLUMNS = 7
   \<and> (validate_columns df = [] \<longleftrightarrow> set REQUIRED_COLUMNS \<subseteq> set (columns df))
   \<and> (validate_columns df = [] \<longrightarrow> R \<subseteq> set REQUIRED_COLUMNS \<longrightarrow>
        set (validate_columns (df\<lparr>columns := filter (\<lambda>c. c \<notin> R) (columns df)\<rparr>)) = R
        \<and> length (validate_columns (df\<lparr>columns := filter (\<lambda>c. c \<notin> R) (columns df)\<rparr>)) = card R)"
proof (intro conjI impI)
  show "set (validate_columns df) = set REQUIRED_COLUMNS - set (columns df)"
    by (auto simp: validate_columns_def)
  show "subseq (validate_columns df) REQUIRED_COLUMNS"
    by (simp add: validate_columns_def)
  show "distinct (validate_columns df)"
    by (simp add: validate_columns_def distinct_REQUIRED_COLUMNS)
  show "length REQUIRED_COLUMNS = 7"
    by (simp add: REQUIRED_COLUMNS_def)
  show "validate_columns df = [] \<longleftrightarrow> set REQUIRED_COLUMNS \<subseteq> set (columns df)"
    by (auto simp: validate_columns_def filter_empty_conv)
next
  assume v: "validate_columns df = []" and R: "R \<subseteq> set REQUIRED_COLUMNS"
  let ?df' = "df\<lparr>columns := filter (\<lambda>c. c \<notin> R) (columns df)\<rparr>"
  from v have all: "set REQUIRED_COLUMNS \<subseteq> set (columns df)"
    by (auto simp: validate_columns_def filter_empty_conv)
  with R show s: "set (validate_columns ?df') = R"
    by (auto simp: validate_columns_def)
  have "distinct (validate_columns ?df')"
    by (simp add: validate_columns_def distinct_REQUIRED_COLUMNS)
  then show "length (validate_columns ?df') = card R"
    using s distinct_card by fastforce
qed

theorem validate_columns_reports_missing_witness:
  "validate_columns ex_babc = []
   \<and> {''Level'', ''Lumpsum - Amount''} \<subseteq> set REQUIRED_COLUMNS
   \<and> set (validate_columns
            (ex_babc\<lparr>columns := filter (\<lambda>c. c \<notin> {''Level'', ''Lumpsum - Amount''})
                                   (columns ex_babc)\<rparr>))
       = {''Level'', ''Lumpsum - Amount''}
   \<and> length (validate_columns
               (ex_babc\<lparr>columns := filter (\<lambda>c. c \<notin> {''Level'', ''Lumpsum - Amount''})
                                      (columns ex_babc)\<rparr>))
       = card {''Level'', ''Lumpsum - Amount''}"
proof -
  have v: "validate_columns ex_babc = []"
    by (rule ex_babc_valid)
  have r: "{''Level'', ''Lumpsum - Amount''} \<subseteq> set REQUIRED_COLUMNS"
    by (simp add: REQUIRED_COLUMNS_def)
  from validate_columns_reports_missing [of ex_babc "{''Level'', ''Lumpsum - Amount''}"] v r
  show ?thesis by blast
qed

subsection \<open>Date normalization\<close>







subsection \<open>The caller's table\<close>



subsection \<open>Header rows\<close>

text \<open>
  C6. On a valid table whose cells are all text, every header row built by lines 95 to
  100 equals the first row of its group, the rows of the input with the header's key,
  except that its tier cell is \<^verbatim>\<open>Header\<close> and each of the five detail columns is the empty
  text; every other column, extra columns included, carries the first row's value. There
  is one header row per distinct key. When the table has no column named \<^verbatim>\<open>_level_sort\<close>
  the call returns and these rows, in ascending order of key, are the Header rows of the
  output.
\<close>

theorem header_rows_from_first_row:
  assumes "validate_columns df = []" and "all_text df"
  shows "\<exists>hdr.
      make_header_rows (normalize_dates td DATE_COLUMNS df) = Inr hdr
    \<and> map (\<lambda>r. r rebate_column) (rows hdr) = group_keys (column rebate_column df)
    \<and> (\<forall>h\<in>set (rows hdr).
          filter (\<lambda>r. r rebate_column = h rebate_column) (rows df) \<noteq> []
          \<and> (\<forall>c\<in>set (columns df).
                h c = (if c = level_column then Some ''Header''
                       else if c \<in> set LUMPSUM_COLUMNS then Some ''''
                       else hd (filter (\<lambda>r. r rebate_column = h rebate_column) (rows df)) c)))
    \<and> (level_sort_column \<notin> set (columns df) \<longrightarrow>
          (\<exists>out m. snd (process_dataframe td df) = Inr (out, m)
             \<and> map (\<lambda>r. map r (columns df))
                   (filter (\<lambda>r. r level_column = Some ''Header'') (rows out))
                 = map (\<lambda>r. map r (columns df))
                     (sort_key (\<lambda>r. key_text (r rebate_column)) (rows hdr))))"
proof -
  define df1 where "df1 = normalize_dates td DATE_COLUMNS df"
  define gk where "gk = group_keys (column rebate_column df)"
  have R: "rebate_column \<in> set (columns df)"
    by (rule valid_has_rebate [OF assms(1)])
  then have R1: "rebate_column \<in> set (columns df1)"
    by (simp add: df1_def)
  obtain hdr where hdr: "make_header_rows df1 = Inr hdr"
    and hrows: "rows hdr = map (header_row (columns df) (rows df1)) gk"
    using make_header_rows_present [OF R1] by (auto simp: df1_def gk_def)
  have keys: "map (\<lambda>r. r rebate_column) (rows hdr) = gk"
    by (simp add: hrows comp_def)
  have nokey: "None \<notin> set (column rebate_column df)"
    by (rule all_text_keys [OF assms(2) R])
  have cells: "filter (\<lambda>r. r rebate_column = h rebate_column) (rows df) \<noteq> []
          \<and> (\<forall>c\<in>set (columns df).
                h c = (if c = level_column then Some ''Header''
                       else if c \<in> set LUMPSUM_COLUMNS then Some ''''
                       else hd (filter (\<lambda>r. r rebate_column = h rebate_column) (rows df)) c))"
    if h: "h \<in> set (rows hdr)" for h
  proof -
    from h obtain k where k: "k \<in> set gk" and hk: "h = header_row (columns df) (rows df1) k"
      by (auto simp: hrows)
    then have hkey: "h rebate_column = k"
      by simp
    let ?grp = "filter (\<lambda>r. r rebate_column = k) (rows df)"
    from k have "k \<in> set (column rebate_column df)"
      by (simp add: gk_def)
    then have ne: "?grp \<noteq> []"
      by (auto simp: column_def filter_empty_conv)
    have "h c = (if c = level_column then Some ''Header''
                 else if c \<in> set LUMPSUM_COLUMNS then Some ''''
                 else hd ?grp c)"
      if c: "c \<in> set (columns df)" for c
    proof (cases "c = rebate_column")
      case True
      from ne have "hd ?grp \<in> set ?grp"
        by (rule hd_in_set)
      then have "hd ?grp rebate_column = k"
        by simp
      with True c show ?thesis
        by (simp add: hk df1_def header_row_cell)
    next
      case False
      have "None \<notin> set (map (\<lambda>r. r c) ?grp)"
      proof
        assume "None \<in> set (map (\<lambda>r. r c) ?grp)"
        then obtain r where "r \<in> set (rows df)" "r c = None"
          by auto
        with all_textD [OF assms(2) this(1) c] show False
          by simp
      qed
      with ne have "first_valid (map (\<lambda>r. r c) ?grp) = hd (map (\<lambda>r. r c) ?grp)"
        by (intro first_valid_text) simp_all
      with False c ne show ?thesis
        by (simp add: hk df1_def header_row_cell hd_map)
    qed
    with ne show ?thesis
      unfolding hkey by blast
  qed
  have out: "\<exists>out m. snd (process_dataframe td df) = Inr (out, m)
             \<and> map (\<lambda>r. map r (columns df))
                   (filter (\<lambda>r. r level_column = Some ''Header'') (rows out))
                 = map (\<lambda>r. map r (columns df))
                     (sort_key (\<lambda>r. key_text (r rebate_column)) (rows hdr))"
    if N: "level_sort_column \<notin> set (columns df)"
  proof -
    from header_row_contents [OF assms(1) N, of td] hdr obtain out m
      where run: "snd (process_dataframe td df) = Inr (out, m)"
        and hs: "map (\<lambda>r. map r (columns df))
                   (filter (\<lambda>r. r level_column = Some ''Header'') (rows out))
                 = map (\<lambda>r. map (fill_rebate r) (columns df))
                     (sort_key (\<lambda>r. key_text (r rebate_column)) (rows hdr))"
      unfolding df1_def by auto
    have "h rebate_column \<noteq> None" if "h \<in> set (rows hdr)" for h
    proof -
      from that have "h rebate_column \<in> set (map (\<lambda>r. r rebate_column) (rows hdr))"
        by simp
      then have "h rebate_column \<in> set (column rebate_column df)"
        unfolding keys gk_def by simp
      with nokey show ?thesis
        by metis
    qed
    then have "map (\<lambda>r. map (fill_rebate r) (columns df))
                 (sort_key (\<lambda>r. key_text (r rebate_column)) (rows hdr))
             = map (\<lambda>r. map r (columns df))
                 (sort_key (\<lambda>r. key_text (r rebate_column)) (rows hdr))"
      by (intro map_cong refl visible_fill_text) simp
    with run hs show ?thesis
      by auto
  qed
  from hdr keys cells out show ?thesis
    unfolding df1_def gk_def by blast
qed

theorem header_rows_from_first_row_witness:
  "validate_columns ex_note = [] \<and> all_text ex_note
   \<and> level_sort_column \<notin> set (columns ex_note)
   \<and> (\<exists>hdr out m.
        make_header_rows (normalize_dates mdY_parser DATE_COLUMNS ex_note) = Inr hdr
      \<and> map (\<lambda>r. r rebate_column) (rows hdr) = group_keys (column rebate_column ex_note)
      \<and> snd (process_dataframe mdY_parser ex_note) = Inr (out, m)
      \<and> map (\<lambda>r. map r (columns ex_note))
            (filter (\<lambda>r. r level_column = Some ''Header'') (rows out))
          = map (\<lambda>r. map r (columns ex_note))
              (sort_key (\<lambda>r. key_text (r rebate_column)) (rows hdr)))
   \<and> map_option cells (output_table (process_dataframe mdY_parser ex_note))
       = Some [[Some ''X'', Some ''Header'', Some '''', Some '''', Some '''', Some '''', Some '''',
                Some ''first''],
               [Some ''X'', Some ''Lumpsum'', Some ''Flat'', Some ''1'', Some ''NY'',
                Some ''01/15/2024'', Some '''', Some ''first''],
               [Some ''X'', Some ''Lumpsum'', Some ''Flat'', Some ''2'', Some ''NY'',
                Some ''01/15/2024'', Some '''', Some ''second'']]"
proof -
  have c: "map_option cells (output_table (process_dataframe mdY_parser ex_note))
       = Some [[Some ''X'', Some ''Header'', Some '''', Some '''', Some '''', Some '''', Some '''',
                Some ''first''],
               [Some ''X'', Some ''Lumpsum'', Some ''Flat'', Some ''1'', Some ''NY'',
                Some ''01/15/2024'', Some '''', Some ''first''],
               [Some ''X'', Some ''Lumpsum'', Some ''Flat'', Some ''2'', Some ''NY'',
                Some ''01/15/2024'', Some '''', Some ''second'']]"
    by code_simp
  from header_rows_from_first_row [OF ex_note_valid ex_note_all_text, of mdY_parser]
    ex_note_valid ex_note_all_text ex_note_no_scratch c
  show ?thesis by blast
qed

subsection \<open>Row order\<close>

text \<open>
  C2, as the code has it. On a valid table with no column named \<^verbatim>\<open>_level_sort\<close> the
  output is, for each distinct key text in ascending code-point order (a missing key
  read as the empty text), the header rows of that key text followed at once by the
  caller's rows of that key text, retagged and normalized, in their original order. The
  header rows are one per group key. Line 104 says the same: the rebate name is kept
  ascending. The order is not the order in which the keys are first seen.
\<close>

theorem ascending_key_blocks:
  assumes "validate_columns df = []" and "level_sort_column \<notin> set (columns df)"
  shows "\<exists>hdr df2 out m.
      make_header_rows (normalize_dates td DATE_COLUMNS df) = Inr hdr \<and>
      map (\<lambda>r. r rebate_column) (rows hdr) = group_keys (column rebate_column df) \<and>
      process_dataframe td df = (df2, Inr (out, m)) \<and>
      column rebate_column df2 = column rebate_column df \<and>
      cells out =
        concat (map (\<lambda>k. map (\<lambda>r. map (fill_rebate r) (columns df))
                            (filter (\<lambda>r. key_text (r rebate_column) = k) (rows hdr))
                        @ map (\<lambda>r. map (fill_rebate r) (columns df))
                            (filter (\<lambda>r. key_text (r rebate_column) = k) (rows df2)))
                  (sort (remdups (map key_text (column rebate_column df)))))"
proof -
  define df1 where "df1 = normalize_dates td DATE_COLUMNS df"
  define df2 where "df2 = assign_const level_column ''Lumpsum'' df1"
  have R: "rebate_column \<in> set (columns df)"
    by (rule valid_has_rebate [OF assms(1)])
  then have R1: "rebate_column \<in> set (columns df1)"
    by (simp add: df1_def)
  obtain hdr where hdr: "make_header_rows df1 = Inr hdr"
    and hrows: "rows hdr = map (header_row (columns df1) (rows df1)) (group_keys (column rebate_column df1))"
    using make_header_rows_present [OF R1] by auto
  have hp: "header_part td df = map (reindex (level_column # columns df)) (rows hdr)"
    by (simp add: header_part_def Let_def hrows df1_def)
  have lp: "lumpsum_part td df = map (reindex (level_column # columns df)) (rows df2)"
    by (simp add: lumpsum_part_def df2_def df1_def)
  have keys_h: "map (\<lambda>r. r rebate_column) (rows hdr) = group_keys (column rebate_column df)"
    by (simp add: hrows comp_def df1_def)
  have keys_l: "column rebate_column df2 = column rebate_column df"
    by (simp add: df2_def column_def comp_def)
       (metis column_def column_rebate_normalize_dates df1_def)
  define out where "out = \<lparr>columns = columns df,
      rows = map fill_rebate (sort_key sort_pair (header_part td df @ lumpsum_part td df))\<rparr>"
  obtain m where run: "process_dataframe td df = (df2, Inr (out, m))"
    using process_dataframe_returns [OF R assms(2), of td] by (simp add: out_def df2_def df1_def)
  have "cells out =
        concat (map (\<lambda>k. map (\<lambda>r. map (fill_rebate r) (columns df))
                            (filter (\<lambda>r. key_text (r rebate_column) = k) (rows hdr))
                        @ map (\<lambda>r. map (fill_rebate r) (columns df))
                            (filter (\<lambda>r. key_text (r rebate_column) = k) (rows df2)))
                  (sort (remdups (map key_text (column rebate_column df)))))"
  proof -
    have rows_out: "rows out = map fill_rebate
        (concat (map (\<lambda>k. filter (\<lambda>r. key_text (r rebate_column) = k) (header_part td df)
                          @ filter (\<lambda>r. key_text (r rebate_column) = k) (lumpsum_part td df))
                   (sort (remdups (map key_text (column rebate_column df))))))"
      by (simp add: out_def sorted_parts_blocks [OF R])
    have blk: "map (\<lambda>r. map (fill_rebate r) (columns df))
                 (filter (\<lambda>r. key_text (r rebate_column) = k) (map (reindex (level_column # columns df)) xs))
             = map (\<lambda>r. map (fill_rebate r) (columns df))
                 (filter (\<lambda>r. key_text (r rebate_column) = k) xs)" for k xs
      using visible_block [OF R, of k xs] by (simp add: comp_def)
    have "cells out = map (\<lambda>r. map (fill_rebate r) (columns df))
        (concat (map (\<lambda>k. filter (\<lambda>r. key_text (r rebate_column) = k) (header_part td df)
                          @ filter (\<lambda>r. key_text (r rebate_column) = k) (lumpsum_part td df))
                   (sort (remdups (map key_text (column rebate_column df))))))"
      by (simp add: cells_def rows_out comp_def) (simp add: out_def)
    also have "\<dots> = concat (map (\<lambda>k. map (\<lambda>r. map (fill_rebate r) (columns df))
                            (filter (\<lambda>r. key_text (r rebate_column) = k) (rows hdr))
                        @ map (\<lambda>r. map (fill_rebate r) (columns df))
                            (filter (\<lambda>r. key_text (r rebate_column) = k) (rows df2)))
                  (sort (remdups (map key_text (column rebate_column df)))))"
      by (rule map_concat_blocks) (simp add: hp lp blk)
    finally show ?thesis .
  qed
  with hdr keys_h run keys_l show ?thesis
    unfolding df1_def by blast
qed

text \<open>
  The claim as written fails on keys in the order B, A, B, C: the header rows come out
  in the order A, B, C.
\<close>

theorem first_seen_order_counterexample:
  "column rebate_column ex_babc = [Some ''B'', Some ''A'', Some ''B'', Some ''C'']
   \<and> validate_columns ex_babc = []
   \<and> map_option header_keys (output_table (process_dataframe mdY_parser ex_babc))
       = Some [Some ''A'', Some ''B'', Some ''C'']
   \<and> map_option row_tags (output_table (process_dataframe mdY_parser ex_babc))
       = Some [(Some ''A'', Some ''Header''), (Some ''A'', Some ''Lumpsum''),
               (Some ''B'', Some ''Header''), (Some ''B'', Some ''Lumpsum''),
               (Some ''B'', Some ''Lumpsum''),
               (Some ''C'', Some ''Header''), (Some ''C'', Some ''Lumpsum'')]"
  by code_simp

theorem ascending_key_blocks_witness:
  "validate_columns ex_babc = [] \<and> level_sort_column \<notin> set (columns ex_babc)
   \<and> (\<exists>hdr df2 out m.
        make_header_rows (normalize_dates mdY_parser DATE_COLUMNS ex_babc) = Inr hdr
      \<and> map (\<lambda>r. r rebate_column) (rows hdr) = group_keys (column rebate_column ex_babc)
      \<and> process_dataframe mdY_parser ex_babc = (df2, Inr (out, m))
      \<and> column rebate_column df2 = column rebate_column ex_babc
      \<and> cells out =
          concat (map (\<lambda>k. map (\<lambda>r. map (fill_rebate r) (columns ex_babc))
                              (filter (\<lambda>r. key_text (r rebate_column) = k) (rows hdr))
                          @ map (\<lambda>r. map (fill_rebate r) (columns ex_babc))
                              (filter (\<lambda>r. key_text (r rebate_column) = k) (rows df2)))
                    (sort (remdups (map key_text (column rebate_column ex_babc))))))"
  using ascending_key_blocks [OF ex_babc_valid ex_babc_no_scratch, of mdY_parser]
    ex_babc_valid ex_babc_no_scratch
  by blast

subsection \<open>Missing and empty keys\<close>

text \<open>
  C8. On a valid table in which a missing key and an empty-text key do not both occur,
  every table of text among them: all rows whose key is missing or empty have the same
  key cell, so they are one group; among the distinct keys that line 93 counts they are
  one; and lines 95 to 100 build one header row for them. When the table has no column
  named \<^verbatim>\<open>_level_sort\<close> the call returns, \<^verbatim>\<open>distinct_rebates\<close> and \<^verbatim>\<open>header_count\<close> are the
  number of distinct keys, the output has exactly one Header row with the empty key
  text, no key cell of the output is missing, and the output is sorted by key text, the
  missing key sorting as the empty text.
\<close>

theorem empty_key_rows_one_group:
  assumes "validate_columns df = []"
    and "None \<notin> set (column rebate_column df) \<or> Some '''' \<notin> set (column rebate_column df)"
  shows "(\<forall>r\<in>set (rows df). \<forall>r'\<in>set (rows df).
            key_text (r rebate_column) = '''' \<longrightarrow> key_text (r' rebate_column) = '''' \<longrightarrow>
            r rebate_column = r' rebate_column)
     \<and> length (filter (\<lambda>k. key_text k = '''') (remdups (column rebate_column df)))
         = (if \<exists>k\<in>set (column rebate_column df). key_text k = '''' then 1 else 0)
     \<and> (\<exists>hdr. make_header_rows (normalize_dates td DATE_COLUMNS df) = Inr hdr
           \<and> length (filter (\<lambda>r. key_text (r rebate_column) = '''') (rows hdr))
               = (if \<exists>k\<in>set (column rebate_column df). key_text k = '''' then 1 else 0))
     \<and> (level_sort_column \<notin> set (columns df) \<longrightarrow>
          (\<exists>out m. snd (process_dataframe td df) = Inr (out, m)
             \<and> distinct_rebates m = nunique (column rebate_column df)
             \<and> header_count m = nunique (column rebate_column df)
             \<and> length (filter (\<lambda>r. r level_column = Some ''Header'' \<and> r rebate_column = Some '''')
                          (rows out))
                 = (if \<exists>k\<in>set (column rebate_column df). key_text k = '''' then 1 else 0)
             \<and> (\<forall>r\<in>set (rows out). r rebate_column \<noteq> None)
             \<and> sorted (map (\<lambda>r. key_text (r rebate_column)) (rows out))))"
proof -
  let ?K = "column rebate_column df"
  let ?n = "if \<exists>k\<in>set ?K. key_text k = '''' then 1 else (0::nat)"
  have R: "rebate_column \<in> set (columns df)"
    by (rule valid_has_rebate [OF assms(1)])
  have one: "r rebate_column = r' rebate_column"
    if "r \<in> set (rows df)" "r' \<in> set (rows df)"
      "key_text (r rebate_column) = ''''" "key_text (r' rebate_column) = ''''" for r r'
  proof -
    from that(1,2) have "r rebate_column \<in> set ?K" "r' rebate_column \<in> set ?K"
      by (simp_all add: column_def)
    with that(3,4) assms(2) show ?thesis
      unfolding key_text_empty_iff by metis
  qed
  have bucket: "length (filter (\<lambda>k. key_text k = '''') (remdups ?K)) = ?n"
    using count_empty_text_one [of "remdups ?K"] assms(2) by simp
  have R1: "rebate_column \<in> set (columns (normalize_dates td DATE_COLUMNS df))"
    using R by simp
  obtain hdr where hdr: "make_header_rows (normalize_dates td DATE_COLUMNS df) = Inr hdr"
    and hrows: "rows hdr = map (header_row (columns df) (rows (normalize_dates td DATE_COLUMNS df)))
                             (group_keys ?K)"
    using make_header_rows_present [OF R1] by auto
  have "length (filter (\<lambda>r. key_text (r rebate_column) = '''') (rows hdr))
      = length (filter (\<lambda>k. key_text k = '''') (group_keys ?K))"
    by (simp add: hrows filter_map comp_def)
  also have "\<dots> = ?n"
    using count_empty_text_one [of "group_keys ?K"] assms(2) by simp
  finally have heads: "length (filter (\<lambda>r. key_text (r rebate_column) = '''') (rows hdr)) = ?n" .
  have out: "\<exists>out m. snd (process_dataframe td df) = Inr (out, m)
             \<and> distinct_rebates m = nunique ?K
             \<and> header_count m = nunique ?K
             \<and> length (filter (\<lambda>r. r level_column = Some ''Header'' \<and> r rebate_column = Some '''')
                          (rows out)) = ?n
             \<and> (\<forall>r\<in>set (rows out). r rebate_column \<noteq> None)
             \<and> sorted (map (\<lambda>r. key_text (r rebate_column)) (rows out))"
    if N: "level_sort_column \<notin> set (columns df)"
  proof -
    have "(\<exists>k\<in>set ?K. key_text k = '''') \<longleftrightarrow> None \<in> set ?K \<or> Some '''' \<in> set ?K"
      by (auto simp: key_text_empty_iff)
    with assms(2)
    have n: "(if None \<in> set ?K then 1 else 0) + (if Some '''' \<in> set ?K then 1 else (0::nat)) = ?n"
      by auto
    from missing_and_empty_keys [OF assms(1) N, of td] show ?thesis
      unfolding n by (auto simp: nunique_def length_remdups_card_conv)
  qed
  from one bucket hdr heads out show ?thesis
    by blast
qed

theorem empty_key_rows_one_group_witness:
  "validate_columns ex_empty_key = []
   \<and> column rebate_column ex_empty_key = [Some ''B'', Some '''', Some '''']
   \<and> level_sort_column \<notin> set (columns ex_empty_key)
   \<and> (\<exists>out m. snd (process_dataframe mdY_parser ex_empty_key) = Inr (out, m)
        \<and> distinct_rebates m = nunique (column rebate_column ex_empty_key)
        \<and> length (filter (\<lambda>r. r level_column = Some ''Header'' \<and> r rebate_column = Some '''')
                     (rows out)) = 1
        \<and> sorted (map (\<lambda>r. key_text (r rebate_column)) (rows out)))
   \<and> map_option distinct_rebates (output_metrics (process_dataframe mdY_parser ex_empty_key))
       = Some 2
   \<and> map_option row_tags (output_table (process_dataframe mdY_parser ex_empty_key))
       = Some [(Some '''', Some ''Header''), (Some '''', Some ''Lumpsum''),
               (Some '''', Some ''Lumpsum''),
               (Some ''B'', Some ''Header''), (Some ''B'', Some ''Lumpsum'')]"
proof -
  have k: "column rebate_column ex_empty_key = [Some ''B'', Some '''', Some '''']"
    by code_simp
  have h: "None \<notin> set (column rebate_column ex_empty_key)
           \<or> Some '''' \<notin> set (column rebate_column ex_empty_key)"
    unfolding k by simp
  have e: "(\<exists>k\<in>set (column rebate_column ex_empty_key). key_text k = '''')"
    unfolding k by (simp add: key_text_def)
  have c: "map_option distinct_rebates (output_metrics (process_dataframe mdY_parser ex_empty_key))
       = Some 2"
    "map_option row_tags (output_table (process_dataframe mdY_parser ex_empty_key))
       = Some [(Some '''', Some ''Header''), (Some '''', Some ''Lumpsum''),
               (Some '''', Some ''Lumpsum''),
               (Some ''B'', Some ''Header''), (Some ''B'', Some ''Lumpsum'')]"
    by code_simp+
  from empty_key_rows_one_group [OF ex_empty_key_valid h, of mdY_parser] e
  have "\<exists>out m. snd (process_dataframe mdY_parser ex_empty_key) = Inr (out, m)
        \<and> distinct_rebates m = nunique (column rebate_column ex_empty_key)
        \<and> length (filter (\<lambda>r. r level_column = Some ''Header'' \<and> r rebate_column = Some '''')
                     (rows out)) = 1
        \<and> sorted (map (\<lambda>r. key_text (r rebate_column)) (rows out))"
    using ex_empty_key_no_scratch by auto
  with ex_empty_key_valid k ex_empty_key_no_scratch c show ?thesis
    by blast
qed

subsection \<open>Tables with a column named like the scratch column\<close>

text \<open>
  Line 106 writes the tier rank into a column named \<^verbatim>\<open>_level_sort\<close>, line 109 drops that
  column, and line 111 selects the original columns. A valid table that already has a
  column of that name loses it at line 109, and line 111 raises \<^verbatim>\<open>KeyError\<close>: the call
  returns neither a table nor metrics (\<open>process_dataframe_scratch_clash\<close>). On every
  other valid table the call returns, with the input's column order and the stated
  metrics (\<open>returns_columns_and_metrics\<close>) and with each Header row before the Lumpsum
  rows of its key, which keep their order (\<open>header_first_and_stable\<close>).
\<close>

text \<open>
  C7. The output's column order is to equal the input's for any extra columns among the
  required ones. For the valid table \<open>ex_scratch_between\<close>, whose extra column
  \<^verbatim>\<open>_level_sort\<close> stands between the required columns, the call raises and returns no
  table.
\<close>

theorem scratch_column_between_raises:
  "validate_columns ex_scratch_between = []
   \<and> raised (process_dataframe mdY_parser ex_scratch_between) = Some (KeyError [''_level_sort''])
   \<and> map_option columns (output_table (process_dataframe mdY_parser ex_scratch_between)) = None"
  by code_simp

text \<open>
  C1. Every valid table is to give an output with one Header row per distinct key, before
  the Lumpsum rows of that key. For the valid table \<open>ex_scratch_last\<close>, with keys Y and X
  and an extra column \<^verbatim>\<open>_level_sort\<close>, the call raises and returns no rows.
\<close>

theorem scratch_column_no_rows_returned:
  "validate_columns ex_scratch_last = []
   \<and> column rebate_column ex_scratch_last = [Some ''Y'', Some ''X'']
   \<and> raised (process_dataframe mdY_parser ex_scratch_last) = Some (KeyError [''_level_sort''])
   \<and> map_option row_tags (output_table (process_dataframe mdY_parser ex_scratch_last)) = None"
  by code_simp

text \<open>
  C3. Every valid table is to give a metrics record. For the valid table
  \<open>ex_scratch_first\<close>, with an extra column \<^verbatim>\<open>_level_sort\<close>, the call raises and returns no
  metrics.
\<close>

theorem scratch_column_no_metrics_returned:
  "validate_columns ex_scratch_first = []
   \<and> raised (process_dataframe mdY_parser ex_scratch_first) = Some (KeyError [''_level_sort''])
   \<and> output_metrics (process_dataframe mdY_parser ex_scratch_first) = None"
  by code_simp

end
